theory Spec2Isabelle
  imports Main "HOL-Library.Word" "HOL-Library.Multiset"
begin

section \<open>Common machinery\<close>

text \<open>
  Reads and writes of a \<^verbatim>\<open>std::vector\<close> through \<^verbatim>\<open>operator[]\<close> are undefined beyond
  the end of the vector.  Every model below returns \<open>None\<close> there, so a result \<open>Some x\<close>
  says that the source ran without touching memory outside its vectors.
\<close>

definition nth_opt :: "'a list \<Rightarrow> nat \<Rightarrow> 'a option" where
  "nth_opt xs i = (if i < length xs then Some (xs ! i) else None)"

definition upd_opt :: "'a list \<Rightarrow> nat \<Rightarrow> 'a \<Rightarrow> 'a list option" where
  "upd_opt xs i x = (if i < length xs then Some (xs[i := x]) else None)"

text \<open>A loop over a fixed sequence whose body may fail: the first failure ends the run.\<close>

fun foldM :: "('a \<Rightarrow> 's \<Rightarrow> 's option) \<Rightarrow> 'a list \<Rightarrow> 's \<Rightarrow> 's option" where
  "foldM f [] s = Some s"
| "foldM f (x # xs) s = (case f x s of None \<Rightarrow> None | Some s' \<Rightarrow> foldM f xs s')"

section \<open>Reading a hypergraph file\<close>

text \<open>
  The part of a \<^verbatim>\<open>std::istream\<close> that \<^verbatim>\<open>HypergraphIO.h\<close> uses, of the file as well as
  of the \<^verbatim>\<open>std::istringstream\<close> made of a line: the characters that are still to be read
  and the two state bits.  A stream is good when neither bit is set, and \<^verbatim>\<open>if(file)\<close>
  and \<^verbatim>\<open>while (line_stream >> pin)\<close> test that \<^verbatim>\<open>failbit\<close> is not set.
\<close>

record istream =
  content :: string
  eofbit :: bool
  failbit :: bool

type_synonym ifstream = istream

definition good :: "istream \<Rightarrow> bool" where
  "good f \<longleftrightarrow> \<not> eofbit f \<and> \<not> failbit f"

definition newline :: char where
  "newline = CHR 0x0A"

text \<open>
  \<^verbatim>\<open>std::getline(file, line)\<close>.  On a stream that is not good it sets \<^verbatim>\<open>failbit\<close> and
  leaves \<^verbatim>\<open>line\<close> as it is.  Otherwise \<^verbatim>\<open>line\<close> is erased and filled with the
  characters up to the next newline, which is consumed; reaching the end of the file sets
  \<^verbatim>\<open>eofbit\<close>, and extracting nothing at all sets \<^verbatim>\<open>failbit\<close> as well.
\<close>

definition getline :: "ifstream \<Rightarrow> string \<Rightarrow> ifstream \<times> string" where
  "getline f line =
     (if \<not> good f then (f\<lparr>failbit := True\<rparr>, line)
      else if content f = [] then (f\<lparr>eofbit := True, failbit := True\<rparr>, [])
      else
        (let l = takeWhile (\<lambda>c. c \<noteq> newline) (content f);
             r = dropWhile (\<lambda>c. c \<noteq> newline) (content f)
         in if r = [] then (f\<lparr>content := [], eofbit := True\<rparr>, l)
            else (f\<lparr>content := tl r\<rparr>, l)))"

text \<open>\<^verbatim>\<open>line[0]\<close>: the first character, and the null character for the empty string.\<close>

definition first_char :: "string \<Rightarrow> char" where
  "first_char line = (case line of [] \<Rightarrow> CHR 0x00 | c # _ \<Rightarrow> c)"

text \<open>\<^verbatim>\<open>std::istringstream line_stream(line)\<close>: a good stream over the characters of the line.\<close>

definition istringstream :: "string \<Rightarrow> istream" where
  "istringstream line = \<lparr>content = line, eofbit = False, failbit = False\<rparr>"

definition isspace :: "char \<Rightarrow> bool" where
  "isspace c \<longleftrightarrow> c \<in> set [CHR 0x20, CHR 0x09, CHR 0x0A, CHR 0x0B, CHR 0x0C, CHR 0x0D]"

definition isdigit :: "char \<Rightarrow> bool" where
  "isdigit c \<longleftrightarrow> (48::nat) \<le> of_char c \<and> (of_char c :: nat) \<le> 57"

definition number_of :: "string \<Rightarrow> nat" where
  "number_of ds = foldl (\<lambda>acc c. 10 * acc + (of_char c - 48)) 0 ds"

text \<open>
  Formatted extraction \<^verbatim>\<open>stream >> x\<close> begins with the sentry.  On a stream that is not
  good the sentry sets \<^verbatim>\<open>failbit\<close>.  On a good stream it skips the white space; when
  nothing is left behind the white space it sets \<^verbatim>\<open>eofbit\<close> and \<^verbatim>\<open>failbit\<close>.  The
  extraction goes on only if the stream is good behind the sentry; otherwise \<open>x\<close> is not
  written.
\<close>

definition sentry :: "istream \<Rightarrow> istream" where
  "sentry s =
     (if \<not> good s then s\<lparr>failbit := True\<rparr>
      else
        (let r = dropWhile isspace (content s)
         in if r = [] then s\<lparr>content := [], eofbit := True, failbit := True\<rparr>
            else s\<lparr>content := r\<rparr>))"

text \<open>
  Behind the sentry an optional sign and a run of decimal digits are read.  \<open>scan_integer\<close>
  yields the sign and the magnitude, or \<open>None\<close> when there is no digit, and the characters
  behind what was read.
\<close>

definition scan_integer :: "string \<Rightarrow> (bool \<times> nat) option \<times> string" where
  "scan_integer s1 =
     (let negative = (s1 \<noteq> [] \<and> hd s1 = CHR ''-'');
          s2 = (if s1 \<noteq> [] \<and> (hd s1 = CHR ''-'' \<or> hd s1 = CHR ''+'') then tl s1 else s1);
          ds = takeWhile isdigit s2
      in if ds = [] then (None, s2)
         else (Some (negative, number_of ds), dropWhile isdigit s2))"

text \<open>
  The extraction of a number.  \<open>convert\<close> turns the sign and the magnitude into the value
  to store and tells whether the magnitude fits the type.  The result is the stream
  behind the extraction and the value written to the variable, \<open>None\<close> when the variable
  is not written.  Reading up to the end of the characters sets \<^verbatim>\<open>eofbit\<close>.  Without a
  digit \<open>zero\<close> is stored and \<^verbatim>\<open>failbit\<close> is set (the rule since C++11); a magnitude
  that does not fit stores a bound of the type and sets \<^verbatim>\<open>failbit\<close>.
\<close>

definition extract_number :: "(bool \<Rightarrow> nat \<Rightarrow> bool \<times> 'a) \<Rightarrow> 'a \<Rightarrow> istream \<Rightarrow> istream \<times> 'a option" where
  "extract_number convert zero s =
     (let s1 = sentry s
      in if \<not> good s1 then (s1, None)
         else
           (case scan_integer (content s1) of
              (None, r) \<Rightarrow> (s1\<lparr>content := r, eofbit := (r = []), failbit := True\<rparr>, Some zero)
            | (Some (negative, v), r) \<Rightarrow>
                (case convert negative v of
                   (fits, x) \<Rightarrow>
                     (s1\<lparr>content := r, eofbit := (r = []), failbit := \<not> fits\<rparr>, Some x))))"

text \<open>
  Extraction into an unsigned 32-bit variable, as \<^verbatim>\<open>HyperNodeID\<close>, \<^verbatim>\<open>HyperEdgeID\<close> and
  the two weight types are taken to be (they are declared in \<^verbatim>\<open>definitions.h\<close>, which is
  not part of the sources at hand): a magnitude beyond the type stores the largest value,
  and a minus sign negates modulo \<open>2^32\<close>.
\<close>

definition to_unsigned :: "bool \<Rightarrow> nat \<Rightarrow> bool \<times> 32 word" where
  "to_unsigned negative v =
     (if v < 2 ^ 32 then (True, if negative then - word_of_nat v else word_of_nat v)
      else (False, - 1))"

definition extract_unsigned :: "istream \<Rightarrow> istream \<times> 32 word option" where
  "extract_unsigned s = extract_number to_unsigned 0 s"

text \<open>Extraction into an \<^verbatim>\<open>int\<close>; a value beyond the type stores the nearest bound.\<close>

definition to_signed :: "bool \<Rightarrow> nat \<Rightarrow> bool \<times> int" where
  "to_signed negative v =
     (if negative then (if v \<le> 2 ^ 31 then (True, - int v) else (False, - (2 ^ 31)))
      else (if v < 2 ^ 31 then (True, int v) else (False, 2 ^ 31 - 1)))"

definition extract_int :: "istream \<Rightarrow> istream \<times> int option" where
  "extract_int s = extract_number to_signed 0 s"

text \<open>The value of a variable after an extraction: the value written, or the old one.\<close>

definition stored :: "'a option \<Rightarrow> 'a \<Rightarrow> 'a" where
  "stored written old = (case written of None \<Rightarrow> old | Some v \<Rightarrow> v)"

text \<open>
  The loop \<^verbatim>\<open>while (line[0] == '%') std::getline(file, line)\<close> of \<^verbatim>\<open>parseHGRHeader\<close>.
  It need not end: on a stream that is no longer good \<^verbatim>\<open>getline\<close> leaves a comment line
  in \<^verbatim>\<open>line\<close> for ever.  \<open>None\<close> is the run that does not end.
\<close>

partial_function (option) skip_comments :: "ifstream \<Rightarrow> string \<Rightarrow> (ifstream \<times> string) option" where
  "skip_comments file line =
     (if first_char line = CHR ''%''
      then skip_comments (fst (getline file line)) (snd (getline file line))
      else Some (file, line))"

text \<open>
  \<^verbatim>\<open>sstream >> num_hyperedges >> num_hypernodes >> hypergraph_type\<close>: three extractions
  from the stream over the header line, one after the other.  Once \<^verbatim>\<open>failbit\<close> or
  \<^verbatim>\<open>eofbit\<close> is set the sentry of every later extraction fails, and the variable keeps
  the value it has.  The arguments are the values that the three references hold before.
\<close>

definition extract_header :: "string \<Rightarrow> 32 word \<Rightarrow> 32 word \<Rightarrow> int \<Rightarrow> 32 word \<times> 32 word \<times> int" where
  "extract_header line num_hyperedges num_hypernodes hypergraph_type =
     (let x1 = extract_unsigned (istringstream line);
          x2 = extract_unsigned (fst x1);
          x3 = extract_int (fst x2)
      in (stored (snd x1) num_hyperedges, stored (snd x2) num_hypernodes,
          stored (snd x3) hypergraph_type))"

text \<open>
  \<^verbatim>\<open>parseHGRHeader\<close>: the stream behind the header line and the three numbers.  A
  stream with \<^verbatim>\<open>failbit\<close> set (the file was not found) is left alone, with a message on
  \<^verbatim>\<open>std::cerr\<close>.
\<close>

definition parseHGRHeader ::
  "ifstream \<Rightarrow> 32 word \<Rightarrow> 32 word \<Rightarrow> int \<Rightarrow> (ifstream \<times> 32 word \<times> 32 word \<times> int) option" where
  "parseHGRHeader file num_hyperedges num_hypernodes hypergraph_type =
     (if \<not> failbit file then
        (case skip_comments (fst (getline file [])) (snd (getline file [])) of
           None \<Rightarrow> None
         | Some (file', line) \<Rightarrow>
             Some (file', extract_header line num_hyperedges num_hypernodes hypergraph_type))
      else Some (file, num_hyperedges, num_hypernodes, hypergraph_type))"

text \<open>
  The loop \<^verbatim>\<open>while (line_stream >> pin) { --pin; edge_vector.push_back(pin); }\<close>: every
  pin is stored decremented by one, in the arithmetic of \<^verbatim>\<open>HyperNodeID\<close>.  The loop
  goes on while \<^verbatim>\<open>failbit\<close> is not set behind the extraction.  Then \<^verbatim>\<open>pin\<close> has been
  written (\<open>extract_shorter\<close>), so the branch \<open>None\<close> below is never taken.
\<close>

lemma sentry_content: "length (content (sentry s)) \<le> length (content s)"
  by (simp add: sentry_def Let_def length_dropWhile_le)

lemma scan_integer_shorter:
  "scan_integer s = (Some x, r) \<Longrightarrow> length r < length s"
proof -
  assume a: "scan_integer s = (Some x, r)"
  define s2 where "s2 = (if s \<noteq> [] \<and> (hd s = CHR ''-'' \<or> hd s = CHR ''+'') then tl s else s)"
  from a have ne: "takeWhile isdigit s2 \<noteq> []" and r: "r = dropWhile isdigit s2"
    by (auto simp: scan_integer_def Let_def s2_def split: if_splits)
  have "length s2 = length (takeWhile isdigit s2) + length (dropWhile isdigit s2)"
    by (metis length_append takeWhile_dropWhile_id)
  with ne r have "length r < length s2" by (cases "takeWhile isdigit s2") simp_all
  moreover have "length s2 \<le> length s" by (simp add: s2_def)
  ultimately show ?thesis by simp
qed

lemma sentry_fails: "\<not> good (sentry s) \<Longrightarrow> failbit (sentry s)"
  by (simp add: sentry_def good_def Let_def split: if_splits)

lemma extract_shorter:
  assumes "extract_number convert zero s = (s', w)" "\<not> failbit s'"
  shows "length (content s') < length (content s) \<and> w \<noteq> None"
proof -
  from assms have g: "good (sentry s)"
    by (auto simp: extract_number_def Let_def split: if_splits dest: sentry_fails)
  obtain y r where sc: "scan_integer (content (sentry s)) = (y, r)" by (cases "scan_integer (content (sentry s))")
  from assms g sc obtain x where y: "y = Some x"
    by (cases y) (auto simp: extract_number_def Let_def)
  from assms g sc y have c: "content s' = r" and w: "w \<noteq> None"
    by (auto simp: extract_number_def Let_def split: prod.splits)
  from sc y have "length r < length (content (sentry s))" by (simp add: scan_integer_shorter)
  with sentry_content [of s] c w show ?thesis by simp
qed

function read_pins :: "istream \<Rightarrow> 32 word list \<Rightarrow> 32 word list" where
  "read_pins line_stream edge_vector =
     (case extract_unsigned line_stream of
        (line_stream', written) \<Rightarrow>
          if \<not> failbit line_stream'
          then (case written of
                  Some pin \<Rightarrow> read_pins line_stream' (edge_vector @ [pin - 1])
                | None \<Rightarrow> edge_vector)
          else edge_vector)"
  by pat_completeness auto
termination
  by (relation "measure (\<lambda>(line_stream, edge_vector). length (content line_stream))")
     (auto simp: extract_unsigned_def dest: extract_shorter [OF sym])

declare read_pins.simps [simp del]

text \<open>
  The state of \<^verbatim>\<open>parseHypergraphFile\<close>: the stream, the variable \<^verbatim>\<open>line\<close>, which lives
  across the rounds of both loops, and the four vectors.  The two weight vectors are
  passed as pointers; \<open>None\<close> is the null pointer.
\<close>

record hgr_state =
  stream :: ifstream
  line :: string
  index_vector :: "nat list"
  edge_vector :: "32 word list"
  hyperedge_weights :: "32 word list option"
  hypernode_weights :: "32 word list option"

text \<open>
  One round of the loop over the hyperedges.  With \<^verbatim>\<open>has_hyperedge_weights\<close> the weight
  is extracted first and pushed, whether the extraction succeeded or not.  The result
  \<open>None\<close> is undefined behaviour: a push through a null pointer, or the push of
  \<^verbatim>\<open>edge_weight\<close>, which is declared without a value, when the extraction has not written
  it.  The loop over the pins works on the same stream, so after a failed extraction of
  the weight it reads nothing.
\<close>

definition read_hyperedge :: "bool \<Rightarrow> hgr_state \<Rightarrow> hgr_state option" where
  "read_hyperedge has_hyperedge_weights st =
     (let g = getline (stream st) (line st);
          st1 = st\<lparr>stream := fst g, line := snd g\<rparr>;
          line_stream = istringstream (line st1)
      in if has_hyperedge_weights then
           (case hyperedge_weights st1 of
              None \<Rightarrow> None
            | Some ws \<Rightarrow>
               (case extract_unsigned line_stream of
                  (line_stream', None) \<Rightarrow> None
                | (line_stream', Some edge_weight) \<Rightarrow>
                    let ev = read_pins line_stream' (edge_vector st1)
                    in Some (st1\<lparr>hyperedge_weights := Some (ws @ [edge_weight]),
                                   edge_vector := ev,
                                   index_vector := index_vector st1 @ [length ev]\<rparr>)))
         else
           (let ev = read_pins line_stream (edge_vector st1)
            in Some (st1\<lparr>edge_vector := ev,
                           index_vector := index_vector st1 @ [length ev]\<rparr>)))"

text \<open>
  One round of the loop over the weights of the hypernodes; \<open>None\<close> is again a push
  through a null pointer or the push of a variable that has not been written.
\<close>

definition read_hypernode_weight :: "hgr_state \<Rightarrow> hgr_state option" where
  "read_hypernode_weight st =
     (let g = getline (stream st) (line st);
          st1 = st\<lparr>stream := fst g, line := snd g\<rparr>
      in case hypernode_weights st1 of
           None \<Rightarrow> None
         | Some ws \<Rightarrow>
             (case extract_unsigned (istringstream (line st1)) of
                (line_stream', None) \<Rightarrow> None
              | (line_stream', Some node_weight) \<Rightarrow>
                  Some (st1\<lparr>hypernode_weights := Some (ws @ [node_weight])\<rparr>)))"

text \<open>
  \<^verbatim>\<open>parseHypergraphFile\<close>.  The result is the final state with the numbers of
  hypernodes and hyperedges of the header.  The outer \<open>None\<close> is the header loop that does
  not end, the inner one undefined behaviour in one of the two loops.  The assertions on
  the type of the hypergraph and on the pins are compiled out of a release build.
\<close>

definition parseHypergraphFile ::
  "ifstream \<Rightarrow> 32 word \<Rightarrow> 32 word \<Rightarrow> nat list \<Rightarrow> 32 word list
     \<Rightarrow> 32 word list option \<Rightarrow> 32 word list option
     \<Rightarrow> (32 word \<times> 32 word \<times> hgr_state) option option" where
  "parseHypergraphFile f num_hypernodes num_hyperedges iv ev he_weights hn_weights =
     (case parseHGRHeader f num_hyperedges num_hypernodes 0 of
        None \<Rightarrow> None
      | Some (f', num_hyperedges', num_hypernodes', hypergraph_type) \<Rightarrow>
          let has_hyperedge_weights = (hypergraph_type = 1 \<or> hypergraph_type = 11);
              has_hypernode_weights = (hypergraph_type = 10 \<or> hypergraph_type = 11);
              st0 = \<lparr>stream = f', line = [], index_vector = iv @ [length ev],
                      edge_vector = ev, hyperedge_weights = he_weights,
                      hypernode_weights = hn_weights\<rparr>
          in Some
               (case foldM (\<lambda>i. read_hyperedge has_hyperedge_weights)
                       [0..<unat num_hyperedges'] st0 of
                  None \<Rightarrow> None
                | Some st1 \<Rightarrow>
                    if has_hypernode_weights then
                      map_option (\<lambda>st2. (num_hypernodes', num_hyperedges', st2))
                        (foldM (\<lambda>i. read_hypernode_weight) [0..<unat num_hypernodes'] st1)
                    else Some (num_hypernodes', num_hyperedges', st1)))"


section \<open>Well-formed hypergraph files\<close>

text \<open>
  The shape of the files that the statements on \<^verbatim>\<open>parseHypergraphFile\<close> speak about.
  A file is a sequence of lines, each ended by a newline.
\<close>

definition unlines :: "string list \<Rightarrow> string" where
  "unlines ls = concat (map (\<lambda>l. l @ [newline]) ls)"

text \<open>
  A number is written as a non-empty run of decimal digits; the numbers of a line are
  separated by one blank.
\<close>

definition token :: "string \<Rightarrow> bool" where
  "token t \<longleftrightarrow> t \<noteq> [] \<and> list_all isdigit t"

definition spaced :: "string list \<Rightarrow> string" where
  "spaced ts = concat (map (\<lambda>t. CHR '' '' # t) ts)"

definition join :: "string list \<Rightarrow> string" where
  "join ts = (case ts of [] \<Rightarrow> [] | t # ts' \<Rightarrow> t @ spaced ts')"

text \<open>A number that fits the 32 bits of the variable it is read into.\<close>

definition valid_number :: "string \<Rightarrow> bool" where
  "valid_number t \<longleftrightarrow> token t \<and> number_of t < 2 ^ 32"

text \<open>
  The line of a hyperedge, given as the text of its weight and the texts of its pins: the
  weight stands in front of the pins when the file has hyperedge weights, and is absent
  otherwise.
\<close>

definition edge_line :: "bool \<Rightarrow> string \<times> string list \<Rightarrow> string" where
  "edge_line has_weight e = join ((if has_weight then [fst e] else []) @ snd e)"

text \<open>
  What the parser stores for the text of a pin and for the text of a weight or a count.
\<close>

definition pin_of :: "string \<Rightarrow> 32 word" where
  "pin_of t = word_of_nat (number_of t) - 1"

definition weight_of :: "string \<Rightarrow> 32 word" where
  "weight_of t = word_of_nat (number_of t)"

text \<open>The running sums of a list of lengths, from \<open>start\<close>.\<close>

fun offsets :: "nat \<Rightarrow> nat list \<Rightarrow> nat list" where
  "offsets start [] = []"
| "offsets start (l # ls) = (start + l) # offsets (start + l) ls"

text \<open>
  A file with a comment, two hyperedges \<open>{1, 2}\<close> and \<open>{2, 3}\<close> of the weights 5 and 7,
  and three hypernodes of the weights 4, 6 and 8.
\<close>

definition ex_file :: ifstream where
  "ex_file =
     \<lparr>content = unlines [''% two hyperedges, three hypernodes'', ''2 3 11'', ''5 1 2'', ''7 2 3'',
                           ''4'', ''6'', ''8''],
      eofbit = False, failbit = False\<rparr>"

text \<open>A file whose header holds two numbers only, as a file without weights may.\<close>

definition ex_file_two :: ifstream where
  "ex_file_two =
     \<lparr>content = unlines [''2 3'', ''1 2'', ''2 3''], eofbit = False, failbit = False\<rparr>"

section \<open>The hypergraph store\<close>

text \<open>
  The fields of \<^verbatim>\<open>GenericHypergraph\<close> that extraction and merge read and write.  The
  class itself is declared in \<^verbatim>\<open>kahypar/datastructure/hypergraph.h\<close>; identifiers,
  sizes and weights are modelled as natural numbers, community identifiers as integers
  (\<open>-1\<close> is a valid value of the signed \<^verbatim>\<open>PartitionID\<close>), the edge hash as a 64-bit
  word, and the three running counters, on which phase 0 of merge computes with
  subtraction, as the 32-bit unsigned words that \<^verbatim>\<open>HypernodeID\<close> and \<^verbatim>\<open>HyperedgeID\<close> are.  A hypernode or hyperedge is disabled when its \<open>valid\<close> flag is off; the pins of a
  hyperedge are the entries \<open>[firstEntry, firstInvalidEntry)\<close> of the incidence array,
  \<open>firstInvalidEntry = firstEntry + size\<close>, and its reserved range ends where the next
  hyperedge (or the sentinel after the last one) begins.
\<close>

record Hypernode =
  hn_incident_nets :: "nat list"
  hn_weight :: nat
  hn_valid :: bool

record Hyperedge =
  he_begin :: nat
  he_size :: nat
  he_weight :: nat
  he_valid :: bool
  he_hash :: "64 word"

record Hypergraph =
  num_hypernodes :: nat
  num_hyperedges :: nat
  num_pins :: nat
  current_num_hypernodes :: "32 word"
  current_num_hyperedges :: "32 word"
  current_num_pins :: "32 word"
  hypernodes :: "Hypernode list"
  hyperedges :: "Hyperedge list"
  incidence_array :: "nat list"
  communities :: "int list"

definition firstInvalidEntry :: "Hyperedge \<Rightarrow> nat" where
  "firstInvalidEntry e = he_begin e + he_size e"

definition slice :: "'a list \<Rightarrow> nat \<Rightarrow> nat \<Rightarrow> 'a list" where
  "slice xs a b = take (b - a) (drop a xs)"

text \<open>The active pins of hyperedge \<open>he\<close>, and the pins behind them in its reserved range.\<close>

definition pins :: "Hypergraph \<Rightarrow> nat \<Rightarrow> nat list" where
  "pins hg he = (let e = hyperedges hg ! he
                 in slice (incidence_array hg) (he_begin e) (firstInvalidEntry e))"

definition invalid_pins :: "Hypergraph \<Rightarrow> nat \<Rightarrow> nat list" where
  "invalid_pins hg he =
     slice (incidence_array hg) (firstInvalidEntry (hyperedges hg ! he))
       (he_begin (hyperedges hg ! (he + 1)))"

section \<open>Community sub-hypergraphs\<close>

text \<open>
  \<^verbatim>\<open>CommunityHyperedge\<close>: the original hyperedge of a local hyperedge, and the range of
  positions, relative to \<^verbatim>\<open>firstEntry\<close> of the original hyperedge, that is reserved for
  the pins of this community.
\<close>

record CommunityHyperedge =
  original_he :: nat
  incidence_array_start :: nat
  incidence_array_end :: nat

text \<open>
  \<^verbatim>\<open>CommunitySubhypergraph\<close>.  The reference \<^verbatim>\<open>hg\<close> to the original hypergraph is passed
  to the functions that read it; the two counters are \<^verbatim>\<open>size_t\<close>.
\<close>

record CommunitySubhypergraph =
  community_id :: int
  num_hn_not_in_community :: "64 word"
  num_pins_not_in_community :: "64 word"
  subhypergraph :: Hypergraph
  subhypergraph_to_hypergraph_hn :: "nat list"
  subhypergraph_to_hypergraph_he :: "CommunityHyperedge list"

section \<open>Extraction of a community-induced section hypergraph\<close>

text \<open>
  The accessors of the hypergraph store that extraction calls.  They index the vectors of
  the hypergraph; an index beyond a vector is \<open>None\<close>.
\<close>

definition communityID :: "Hypergraph \<Rightarrow> nat \<Rightarrow> int option" where
  "communityID hg hn = nth_opt (communities hg) hn"

definition nodeWeight :: "Hypergraph \<Rightarrow> nat \<Rightarrow> nat option" where
  "nodeWeight hg hn = map_option hn_weight (nth_opt (hypernodes hg) hn)"

definition pins_opt :: "Hypergraph \<Rightarrow> nat \<Rightarrow> nat list option" where
  "pins_opt hg he =
     (case nth_opt (hyperedges hg) he of
        None \<Rightarrow> None
      | Some e \<Rightarrow>
          if firstInvalidEntry e \<le> length (incidence_array hg) then Some (pins hg he) else None)"

text \<open>\<^verbatim>\<open>new Hypergraph()\<close>: no hypernodes, no hyperedges, no pins.\<close>

definition empty_Hypergraph :: Hypergraph where
  "empty_Hypergraph =
     \<lparr>num_hypernodes = 0, num_hyperedges = 0, num_pins = 0,
      current_num_hypernodes = 0, current_num_hyperedges = 0, current_num_pins = 0,
      hypernodes = [], hyperedges = [], incidence_array = [], communities = []\<rparr>"

text \<open>The constructor of \<^verbatim>\<open>CommunitySubhypergraph\<close>.\<close>

definition new_CommunitySubhypergraph :: "int \<Rightarrow> CommunitySubhypergraph" where
  "new_CommunitySubhypergraph community =
     \<lparr>community_id = community, num_hn_not_in_community = 0, num_pins_not_in_community = 0,
      subhypergraph = empty_Hypergraph, subhypergraph_to_hypergraph_hn = [],
      subhypergraph_to_hypergraph_he = []\<rparr>"

text \<open>
  \<^verbatim>\<open>addHypernode\<close>, \<^verbatim>\<open>addPin\<close> and \<^verbatim>\<open>addHyperedge\<close>; the first two are given the
  community of the hypernode, which the source reads with \<^verbatim>\<open>hg.communityID\<close>.
\<close>

definition addHypernode :: "nat \<Rightarrow> int \<Rightarrow> CommunitySubhypergraph \<Rightarrow> CommunitySubhypergraph" where
  "addHypernode original_hn c cs =
     cs\<lparr>subhypergraph_to_hypergraph_hn := subhypergraph_to_hypergraph_hn cs @ [original_hn],
        num_hn_not_in_community :=
          num_hn_not_in_community cs + (if c \<noteq> community_id cs then 1 else 0)\<rparr>"

definition addPin :: "int \<Rightarrow> CommunitySubhypergraph \<Rightarrow> CommunitySubhypergraph" where
  "addPin c cs =
     cs\<lparr>num_pins_not_in_community :=
          num_pins_not_in_community cs + (if c \<noteq> community_id cs then 1 else 0)\<rparr>"

definition addHyperedge ::
  "nat \<Rightarrow> nat \<Rightarrow> nat \<Rightarrow> CommunitySubhypergraph \<Rightarrow> CommunitySubhypergraph" where
  "addHyperedge he range_start range_end cs =
     cs\<lparr>subhypergraph_to_hypergraph_he :=
          subhypergraph_to_hypergraph_he cs
          @ [\<lparr>original_he = he, incidence_array_start = range_start,
               incidence_array_end = range_end\<rparr>]\<rparr>"

text \<open>
  The first loop nest: every hyperedge incident to an enabled hypernode of the community
  is visited once, and each of its pins becomes a hypernode of the sub-hypergraph.  The
  state is the sub-hypergraph under construction and the \<^verbatim>\<open>visited\<close> flags, hypernodes
  first, hyperedges behind them.
\<close>

definition visit_pin ::
  "Hypergraph \<Rightarrow> nat \<Rightarrow> CommunitySubhypergraph \<times> bool list
     \<Rightarrow> (CommunitySubhypergraph \<times> bool list) option" where
  "visit_pin hg pin st =
     (case nth_opt (snd st) pin of
        None \<Rightarrow> None
      | Some seen \<Rightarrow>
         (case communityID hg pin of
            None \<Rightarrow> None
          | Some c \<Rightarrow>
              if \<not> seen
              then Some (addPin c (addHypernode pin c (fst st)), (snd st)[pin := True])
              else Some (addPin c (fst st), snd st)))"

definition visit_hyperedge ::
  "Hypergraph \<Rightarrow> nat \<Rightarrow> CommunitySubhypergraph \<times> bool list
     \<Rightarrow> (CommunitySubhypergraph \<times> bool list) option" where
  "visit_hyperedge hg he st =
     (case nth_opt (snd st) (num_hypernodes hg + he) of
        None \<Rightarrow> None
      | Some seen \<Rightarrow>
          if \<not> seen then
            (case pins_opt hg he of
               None \<Rightarrow> None
             | Some ps \<Rightarrow>
                (case foldM (visit_pin hg) ps st of
                   None \<Rightarrow> None
                 | Some st' \<Rightarrow>
                     map_option (Pair (fst st'))
                       (upd_opt (snd st') (num_hypernodes hg + he) True)))
          else Some st)"

text \<open>
  The body of \<^verbatim>\<open>for ( hn : hypergraph.nodes() )\<close>; the iterator skips the disabled
  hypernodes.
\<close>

definition visit_hypernode ::
  "Hypergraph \<Rightarrow> int \<Rightarrow> nat \<Rightarrow> CommunitySubhypergraph \<times> bool list
     \<Rightarrow> (CommunitySubhypergraph \<times> bool list) option" where
  "visit_hypernode hg community hn st =
     (case nth_opt (hypernodes hg) hn of
        None \<Rightarrow> None
      | Some node \<Rightarrow>
          if \<not> hn_valid node then Some st
          else
            (case communityID hg hn of
               None \<Rightarrow> None
             | Some c \<Rightarrow>
                 if c = community
                 then foldM (visit_hyperedge hg) (hn_incident_nets node) st
                 else Some st))"

text \<open>
  \<^verbatim>\<open>hypergraph_to_subhypergraph\<close>, filled by \<^verbatim>\<open>hypergraph_to_subhypergraph[hn] = num_hypernodes++\<close>
  over the local-to-global list; a lookup with \<^verbatim>\<open>operator[]\<close> of a hypernode that is no
  key yields the default value 0.
\<close>

definition hypergraph_to_subhypergraph :: "nat list \<Rightarrow> nat \<Rightarrow> nat" where
  "hypergraph_to_subhypergraph mapping pin =
     (case fold (\<lambda>(hn, i) m. m(hn \<mapsto> i)) (zip mapping [0..<length mapping]) Map.empty pin of
        None \<Rightarrow> 0
      | Some i \<Rightarrow> i)"

text \<open>
  Modelled from the spec: \<^verbatim>\<open>SparseMap<PartitionID, size_t>\<close> is not part of the sources
  at hand; the spec calls it a sparse map keyed by community id that is cleared for every
  hyperedge.  It is an association list in the order of first insertion, and
  \<^verbatim>\<open>m[key] += value\<close> inserts a missing key with 0 first.
\<close>

fun sparse_add :: "int \<Rightarrow> nat \<Rightarrow> (int \<times> nat) list \<Rightarrow> (int \<times> nat) list" where
  "sparse_add key val [] = [(key, val)]"
| "sparse_add key val ((k, x) # m) =
     (if k = key then (k, x + val) # m else (k, x) # sparse_add key val m)"

text \<open>
  The loop over the pins of a visited hyperedge: the pin is appended to the incidence
  array of the sub-hypergraph under its local id, size and hash of the new hyperedge grow,
  and the weight of the pin is added to the entry of its community in
  \<^verbatim>\<open>community_sizes_in_he\<close>.  The state is the sub-hypergraph, \<^verbatim>\<open>pin_index\<close> and the
  sparse map; \<open>k\<close> is \<^verbatim>\<open>num_hyperedges\<close>, the index of the new hyperedge.
\<close>

definition copy_pin ::
  "Hypergraph \<Rightarrow> (nat \<Rightarrow> 64 word) \<Rightarrow> nat list \<Rightarrow> nat \<Rightarrow> nat
     \<Rightarrow> Hypergraph \<times> nat \<times> (int \<times> nat) list
     \<Rightarrow> (Hypergraph \<times> nat \<times> (int \<times> nat) list) option" where
  "copy_pin hg hashf mapping k pin st =
     (case st of (sub, pin_index, community_sizes_in_he) \<Rightarrow>
       (case nth_opt (hyperedges sub) k of
          None \<Rightarrow> None
        | Some e \<Rightarrow>
           (case communityID hg pin of
              None \<Rightarrow> None
            | Some c \<Rightarrow>
               (case nodeWeight hg pin of
                  None \<Rightarrow> None
                | Some w \<Rightarrow>
                    let local = hypergraph_to_subhypergraph mapping pin;
                        e' = e\<lparr>he_size := he_size e + 1, he_hash := he_hash e + hashf local\<rparr>
                    in Some (sub\<lparr>hyperedges := (hyperedges sub)[k := e'],
                                  incidence_array := incidence_array sub @ [local]\<rparr>,
                             pin_index + 1,
                             sparse_add c w community_sizes_in_he)))))"

text \<open>
  The loop over \<^verbatim>\<open>community_sizes_in_he\<close> that defines the range of the community:
  the entries of the smaller communities add up to the start, the entry of the community
  itself is the length.
\<close>

definition community_range :: "int \<Rightarrow> (int \<times> nat) list \<Rightarrow> nat \<times> nat" where
  "community_range community community_sizes_in_he =
     fold (\<lambda>(comm, val) (incidence_array_start, community_size).
             if comm < community then (incidence_array_start + val, community_size)
             else if comm = community then (incidence_array_start, val)
             else (incidence_array_start, community_size))
       community_sizes_in_he (0, 0)"

text \<open>
  The body of \<^verbatim>\<open>for ( he : hypergraph.edges() )\<close>; the iterator skips the disabled
  hyperedges.  The state is the result under construction, \<^verbatim>\<open>num_hyperedges\<close> and
  \<^verbatim>\<open>pin_index\<close>.  The new hyperedge is \<^verbatim>\<open>Hyperedge(0, 0, weight)\<close>, enabled, its hash
  initialised with \<open>seed\<close>.
\<close>

definition materialize_hyperedge ::
  "Hypergraph \<Rightarrow> (nat \<Rightarrow> 64 word) \<Rightarrow> 64 word \<Rightarrow> int \<Rightarrow> bool list \<Rightarrow> nat
     \<Rightarrow> CommunitySubhypergraph \<times> nat \<times> nat
     \<Rightarrow> (CommunitySubhypergraph \<times> nat \<times> nat) option" where
  "materialize_hyperedge hg hashf seed community visited he st =
     (case st of (cs, k, pin_index) \<Rightarrow>
       (case nth_opt (hyperedges hg) he of
          None \<Rightarrow> None
        | Some e \<Rightarrow>
            if \<not> he_valid e then Some st
            else
              (case nth_opt visited (num_hypernodes hg + he) of
                 None \<Rightarrow> None
               | Some seen \<Rightarrow>
                   if \<not> seen then Some st
                   else
                     (let sub = subhypergraph cs;
                          sub1 = sub\<lparr>hyperedges := hyperedges sub
                                     @ [\<lparr>he_begin = 0, he_size = 0, he_weight = he_weight e,
                                          he_valid = True, he_hash = seed\<rparr>],
                                   num_hyperedges := num_hyperedges sub + 1\<rparr>
                      in case nth_opt (hyperedges sub1) k of
                           None \<Rightarrow> None
                         | Some new_he \<Rightarrow>
                            (let sub2 = sub1\<lparr>hyperedges :=
                                              (hyperedges sub1)[k := new_he\<lparr>he_begin := pin_index\<rparr>]\<rparr>
                             in case pins_opt hg he of
                                  None \<Rightarrow> None
                                | Some ps \<Rightarrow>
                                   (case foldM (copy_pin hg hashf
                                                  (subhypergraph_to_hypergraph_hn cs) k) ps
                                           (sub2, pin_index, []) of
                                      None \<Rightarrow> None
                                    | Some (sub3, pin_index', community_sizes_in_he) \<Rightarrow>
                                        let r = community_range community community_sizes_in_he
                                        in Some (addHyperedge he (fst r) (fst r + snd r)
                                                   (cs\<lparr>subhypergraph := sub3\<rparr>),
                                                 k + 1, pin_index')))))))"

text \<open>
  Modelled from the spec: a default-constructed \<^verbatim>\<open>Hypernode\<close>, as
  \<^verbatim>\<open>_hypernodes.resize(num_hypernodes)\<close> creates it.  The class is declared in
  \<^verbatim>\<open>hypergraph.h\<close>, which is not part of the sources at hand: no incident nets, weight 1,
  enabled.
\<close>

definition default_Hypernode :: Hypernode where
  "default_Hypernode = \<lparr>hn_incident_nets = [], hn_weight = 1, hn_valid = True\<rparr>"

text \<open>
  \<^verbatim>\<open>extractCommunityInducedSectionHypergraph\<close>.  \<open>setup\<close> stands for
  \<^verbatim>\<open>setupInternalStructure\<close>, which is called with the hypergraph, the local-to-global
  list, the sub-hypergraph and the numbers of hypernodes, pins and hyperedges.
\<close>

definition extractCommunityInducedSectionHypergraph ::
  "(Hypergraph \<Rightarrow> nat list \<Rightarrow> Hypergraph \<Rightarrow> nat \<Rightarrow> nat \<Rightarrow> nat \<Rightarrow> Hypergraph)
     \<Rightarrow> (nat \<Rightarrow> 64 word) \<Rightarrow> 64 word
     \<Rightarrow> Hypergraph \<Rightarrow> int \<Rightarrow> bool \<Rightarrow> CommunitySubhypergraph option" where
  "extractCommunityInducedSectionHypergraph setup hashf seed hypergraph community
       respect_order_of_hypernodes =
     (case foldM (visit_hypernode hypergraph community) [0..<num_hypernodes hypergraph]
             (new_CommunitySubhypergraph community,
              replicate (num_hypernodes hypergraph + num_hyperedges hypergraph) False) of
        None \<Rightarrow> None
      | Some (cs0, visited) \<Rightarrow>
          let cs1 = (if respect_order_of_hypernodes
                     then cs0\<lparr>subhypergraph_to_hypergraph_hn :=
                                 sort (subhypergraph_to_hypergraph_hn cs0)\<rparr>
                     else cs0);
              n = length (subhypergraph_to_hypergraph_hn cs1)
          in if n > 0 then
               (let sub = subhypergraph cs1;
                    cs2 = cs1\<lparr>subhypergraph :=
                               sub\<lparr>hypernodes := hypernodes sub
                                       @ replicate (n - length (hypernodes sub)) default_Hypernode,
                                   num_hypernodes := n\<rparr>\<rparr>
                in case foldM (materialize_hyperedge hypergraph hashf seed community visited)
                          [0..<num_hyperedges hypergraph] (cs2, 0, 0) of
                     None \<Rightarrow> None
                   | Some (cs3, k, pin_index) \<Rightarrow>
                       Some (cs3\<lparr>subhypergraph :=
                                   setup hypergraph (subhypergraph_to_hypergraph_hn cs3)
                                     (subhypergraph cs3) n pin_index k\<rparr>))
             else Some cs1)"

text \<open>
  Modelled from the spec: \<^verbatim>\<open>setupInternalStructure\<close> is declared in \<^verbatim>\<open>hypergraph.h\<close>,
  which is not part of the sources at hand.  The spec calls the result an independent
  hypergraph instance with a local-to-global hypernode mapping, and phase 1 of merge reads
  from it the community, the weight, the enabled flag and the incident nets of every local
  hypernode and the begin of the hyperedge behind the last one.  Accordingly: the counters
  are set, every local hypernode takes the weight and the community of its original and
  is incident to the local hyperedges that contain it, and a sentinel hyperedge that
  begins behind the last pin is appended.
\<close>

definition setupInternalStructure ::
  "Hypergraph \<Rightarrow> nat list \<Rightarrow> Hypergraph \<Rightarrow> nat \<Rightarrow> nat \<Rightarrow> nat \<Rightarrow> Hypergraph" where
  "setupInternalStructure reference mapping sub n pin_count edge_count =
     sub\<lparr>num_hypernodes := n, num_hyperedges := edge_count, num_pins := pin_count,
         current_num_hypernodes := word_of_nat n,
         current_num_hyperedges := word_of_nat edge_count,
         current_num_pins := word_of_nat pin_count,
         hypernodes :=
           map (\<lambda>i. \<lparr>hn_incident_nets = filter (\<lambda>e. i \<in> set (pins sub e)) [0..<edge_count],
                       hn_weight = hn_weight (hypernodes reference ! (mapping ! i)),
                       hn_valid = True\<rparr>) [0..<n],
         hyperedges := hyperedges sub
           @ [\<lparr>he_begin = pin_count, he_size = 0, he_weight = 0, he_valid = True, he_hash = 0\<rparr>],
         communities := map (\<lambda>i. communities reference ! (mapping ! i)) [0..<n]\<rparr>"

text \<open>
  \<^verbatim>\<open>mergeCommunityInducedSectionHypergraphs\<close> is the pre-phase followed by the phases 1, 2
  and 3, which are defined below, with a barrier between them.
\<close>

section \<open>Parallel merge, pre-phase: the aggregate counters\<close>

text \<open>
  One round of the loop of the pre-phase.  The counters of a hypergraph are 32-bit, the
  two counters of the community 64-bit: \<^verbatim>\<open>currentNumNodes() - num_hn_not_in_community\<close> is
  computed in 64 bits and \<^verbatim>\<open>+=\<close> stores the low 32 bits of the 64-bit sum.
  \<^verbatim>\<open>initialNumEdges()\<close> is \<^verbatim>\<open>_num_hyperedges\<close>, a \<^verbatim>\<open>HyperedgeID\<close>.
\<close>

definition phase0_community :: "CommunitySubhypergraph \<Rightarrow> Hypergraph \<Rightarrow> Hypergraph" where
  "phase0_community community hg =
     (let sub = subhypergraph community in
      hg\<lparr>current_num_hypernodes :=
           ucast ((ucast (current_num_hypernodes hg) :: 64 word)
                  + (ucast (current_num_hypernodes sub) - num_hn_not_in_community community)),
         current_num_pins :=
           ucast ((ucast (current_num_pins hg) :: 64 word)
                  + (ucast (current_num_pins sub) - num_pins_not_in_community community)),
         current_num_hyperedges :=
           current_num_hyperedges hg
           - (word_of_nat (num_hyperedges sub) - current_num_hyperedges sub)\<rparr>)"

definition phase0 :: "CommunitySubhypergraph list \<Rightarrow> Hypergraph \<Rightarrow> Hypergraph" where
  "phase0 cs hg =
     fold phase0_community cs (hg\<lparr>current_num_hypernodes := 0, current_num_pins := 0\<rparr>)"

section \<open>Parallel merge, phase 1: writing the communities back\<close>

text \<open>
  The body of the innermost loop, at position \<open>i\<close> of the incidence array of the
  sub-hypergraph: a pin of the current community is written to the position \<open>pos\<close>
  (\<^verbatim>\<open>original_incidence_array_start\<close>) of the original incidence array, and \<open>pos\<close> moves on.
\<close>

definition writeback_pin ::
  "CommunitySubhypergraph \<Rightarrow> nat \<Rightarrow> Hypergraph \<times> nat \<Rightarrow> (Hypergraph \<times> nat) option" where
  "writeback_pin community i st =
     (let sub = subhypergraph community; hg = fst st; pos = snd st in
      case nth_opt (incidence_array sub) i of
        None \<Rightarrow> None
      | Some pin \<Rightarrow>
         (case nth_opt (communities sub) pin of
            None \<Rightarrow> None
          | Some c \<Rightarrow>
              if c = community_id community then
                (case nth_opt (subhypergraph_to_hypergraph_hn community) pin of
                   None \<Rightarrow> None
                 | Some original_pin \<Rightarrow>
                    (case upd_opt (incidence_array hg) pos original_pin of
                       None \<Rightarrow> None
                     | Some arr \<Rightarrow> Some (hg\<lparr>incidence_array := arr\<rparr>, pos + 1)))
              else Some (hg, pos)))"

text \<open>\<^verbatim>\<open>setWeight\<close> and \<^verbatim>\<open>disable\<close> on a hyperedge of the hypergraph.\<close>

definition setWeight_he :: "nat \<Rightarrow> nat \<Rightarrow> Hypergraph \<Rightarrow> Hypergraph" where
  "setWeight_he he w hg =
     hg\<lparr>hyperedges := (hyperedges hg)[he := (hyperedges hg ! he)\<lparr>he_weight := w\<rparr>]\<rparr>"

definition disable_he :: "nat \<Rightarrow> Hypergraph \<Rightarrow> Hypergraph" where
  "disable_he he hg =
     hg\<lparr>hyperedges := (hyperedges hg)[he := (hyperedges hg ! he)\<lparr>he_valid := False\<rparr>]\<rparr>"

text \<open>
  The block \<^verbatim>\<open>if ( !visited[he] ) { ... }\<close> for the local hyperedge \<open>he\<close>, without the
  final \<^verbatim>\<open>visited[he] = true\<close>: the pins of the community are copied into the reserved
  range, the weight is updated and a hyperedge that was disabled during coarsening is
  disabled.  The comparison before \<^verbatim>\<open>setWeight\<close> reads \<^verbatim>\<open>hypergraph._hyperedges[he]\<close>,
  the hyperedge of the original hypergraph at the local index \<open>he\<close>.
\<close>

definition writeback_hyperedge ::
  "CommunitySubhypergraph \<Rightarrow> nat \<Rightarrow> Hypergraph \<Rightarrow> Hypergraph option" where
  "writeback_hyperedge community he hg =
     (let sub = subhypergraph community in
      case nth_opt (subhypergraph_to_hypergraph_he community) he of
        None \<Rightarrow> None
      | Some community_hyperedge \<Rightarrow>
         (case nth_opt (hyperedges hg) (original_he community_hyperedge) of
            None \<Rightarrow> None
          | Some original_edge \<Rightarrow>
             (case nth_opt (hyperedges sub) he of
                None \<Rightarrow> None
              | Some sub_edge \<Rightarrow>
                 (case nth_opt (hyperedges sub) (he + 1) of
                    None \<Rightarrow> None
                  | Some sub_next \<Rightarrow>
                     (case foldM (writeback_pin community)
                             [he_begin sub_edge..<he_begin sub_next]
                             (hg, he_begin original_edge
                                  + incidence_array_start community_hyperedge) of
                        None \<Rightarrow> None
                      | Some (hg1, pos) \<Rightarrow>
                         (case nth_opt (hyperedges hg1) he of
                            None \<Rightarrow> None
                          | Some edge_at_local_index \<Rightarrow>
                              let hg2 = (if he_weight edge_at_local_index < he_weight sub_edge
                                         then setWeight_he (original_he community_hyperedge)
                                                (he_weight sub_edge) hg1
                                         else hg1);
                                  hg3 = (if \<not> he_valid sub_edge
                                         then disable_he (original_he community_hyperedge) hg2
                                         else hg2)
                              in Some hg3))))))"

text \<open>
  The body of the loop over the incident nets of a local hypernode.  The state is the
  hypergraph, the \<^verbatim>\<open>visited\<close> flags of the task and the \<^verbatim>\<open>incident_nets\<close> collected so
  far.
\<close>

definition phase1_incident_net ::
  "CommunitySubhypergraph \<Rightarrow> nat \<Rightarrow> Hypergraph \<times> bool list \<times> nat list
     \<Rightarrow> (Hypergraph \<times> bool list \<times> nat list) option" where
  "phase1_incident_net community he st =
     (case st of (hg, visited, incident_nets) \<Rightarrow>
       (case nth_opt (subhypergraph_to_hypergraph_he community) he of
          None \<Rightarrow> None
        | Some community_hyperedge \<Rightarrow>
           (let incident_nets' = incident_nets @ [original_he community_hyperedge] in
            case nth_opt visited he of
              None \<Rightarrow> None
            | Some seen \<Rightarrow>
                if \<not> seen then
                  (case writeback_hyperedge community he hg of
                     None \<Rightarrow> None
                   | Some hg' \<Rightarrow> Some (hg', visited[he := True], incident_nets'))
                else Some (hg, visited, incident_nets'))))"

text \<open>
  The body of the loop over the local hypernodes: a hypernode of the current community is
  written back with its mapped incident nets, its weight and its enabled flag.
\<close>

definition phase1_hypernode ::
  "CommunitySubhypergraph \<Rightarrow> nat \<Rightarrow> Hypergraph \<times> bool list \<Rightarrow> (Hypergraph \<times> bool list) option" where
  "phase1_hypernode community hn st =
     (let sub = subhypergraph community in
      case nth_opt (communities sub) hn of
        None \<Rightarrow> None
      | Some c \<Rightarrow>
          if c = community_id community then
            (case nth_opt (subhypergraph_to_hypergraph_hn community) hn of
               None \<Rightarrow> None
             | Some original_hn \<Rightarrow>
                (case nth_opt (hypernodes sub) hn of
                   None \<Rightarrow> None
                 | Some sub_node \<Rightarrow>
                    (case foldM (phase1_incident_net community) (hn_incident_nets sub_node)
                            (fst st, snd st, []) of
                       None \<Rightarrow> None
                     | Some (hg', visited', incident_nets) \<Rightarrow>
                        (case upd_opt (hypernodes hg') original_hn
                                \<lparr>hn_incident_nets = incident_nets,
                                   hn_weight = hn_weight sub_node,
                                   hn_valid = hn_valid sub_node\<rparr> of
                           None \<Rightarrow> None
                         | Some nodes \<Rightarrow> Some (hg'\<lparr>hypernodes := nodes\<rparr>, visited')))))
          else Some st)"

text \<open>The task enqueued for one community, and phase 1 as the pool runs the tasks.\<close>

definition phase1_task :: "CommunitySubhypergraph \<Rightarrow> Hypergraph \<Rightarrow> Hypergraph option" where
  "phase1_task community hg =
     (let sub = subhypergraph community in
      map_option fst
        (foldM (phase1_hypernode community) [0..<num_hypernodes sub]
           (hg, replicate (num_hyperedges sub) False)))"

definition phase1 ::
  "(CommunitySubhypergraph list \<Rightarrow> CommunitySubhypergraph list)
     \<Rightarrow> CommunitySubhypergraph list \<Rightarrow> Hypergraph \<Rightarrow> Hypergraph option" where
  "phase1 task_order cs hg = foldM phase1_task (task_order cs) hg"

section \<open>Parallel merge, phase 2: the contraction index\<close>

text \<open>
  \<^verbatim>\<open>Hypergraph::ContractionMemento\<close>: the contraction of \<open>v\<close> into the representative \<open>u\<close>.
\<close>

record ContractionMemento =
  memento_u :: nat
  memento_v :: nat

text \<open>
  \<^verbatim>\<open>contraction_index\<close> is a \<^verbatim>\<open>std::vector<int>\<close> and the loop variable a \<^verbatim>\<open>size_t\<close>:
  the assignment \<^verbatim>\<open>contraction_index[hn] = i\<close> keeps the low 32 bits of \<open>i\<close>, read as
  two's complement.
\<close>

definition to_int32 :: "nat \<Rightarrow> int" where
  "to_int32 i = (let m = i mod 2 ^ 32 in if m < 2 ^ 31 then int m else int m - 2 ^ 32)"

text \<open>
  The body of the loop of the lambda \<^verbatim>\<open>construct_contraction_index\<close> at position \<open>i\<close>:
  \<^verbatim>\<open>hn = history[i].v; contraction_index[hn] = i\<close>.
\<close>

definition contraction_index_at :: "ContractionMemento list \<Rightarrow> nat \<Rightarrow> int list \<Rightarrow> int list option" where
  "contraction_index_at history i contraction_index =
     (case nth_opt history i of
        None \<Rightarrow> None
      | Some m \<Rightarrow> upd_opt contraction_index (memento_v m) (to_int32 i))"

text \<open>\<^verbatim>\<open>for ( size_t i = start; i < end; ++i )\<close> of the lambda.\<close>

definition construct_contraction_index ::
  "ContractionMemento list \<Rightarrow> nat \<times> nat \<Rightarrow> int list \<Rightarrow> int list option" where
  "construct_contraction_index history r contraction_index =
     foldM (contraction_index_at history) [fst r..<snd r] contraction_index"

text \<open>
  The range split shared by phases 2 and 3: \<^verbatim>\<open>step = n / num_threads\<close>; with
  \<^verbatim>\<open>step >= 1 && num_threads != 1\<close> worker \<open>i\<close> gets \<open>[i * step, (i + 1) * step)\<close> and the last
  worker everything up to \<open>n\<close>; otherwise the whole range is one call.  A pool of size 0
  divides by zero: \<open>None\<close>.
\<close>

definition range_split :: "nat \<Rightarrow> nat \<Rightarrow> (nat \<times> nat) list option" where
  "range_split num_threads n =
     (if num_threads = 0 then None
      else let step = n div num_threads in
        if step \<ge> 1 \<and> num_threads \<noteq> 1
        then Some (map (\<lambda>i. (i * step, if i = num_threads - 1 then n else (i + 1) * step))
                       [0..<num_threads])
        else Some [(0, n)])"

text \<open>
  Phase 2.  The table starts as \<^verbatim>\<open>std::vector<int>(initialNumNodes, -1)\<close>.  The enqueued
  tasks write to the shared table; the model runs them one after the other in the order
  \<open>pool_order tasks\<close>, where \<open>pool_order\<close> stands for the order in which the pool happens
  to run what was enqueued.
\<close>

definition phase2 ::
  "ContractionMemento list \<Rightarrow> nat \<Rightarrow> nat \<Rightarrow> ((nat \<times> nat) list \<Rightarrow> (nat \<times> nat) list)
     \<Rightarrow> int list option" where
  "phase2 history initialNumNodes num_threads pool_order =
     (case range_split num_threads (length history) of
        None \<Rightarrow> None
      | Some tasks \<Rightarrow>
          foldM (construct_contraction_index history) (pool_order tasks)
            (replicate initialNumNodes (- 1)))"

section \<open>Parallel merge, phase 3: compaction and ordering of every pin range\<close>

text \<open>\<^verbatim>\<open>std::swap(a[i], a[k])\<close> on a vector.\<close>

definition swap_at :: "'a list \<Rightarrow> nat \<Rightarrow> nat \<Rightarrow> 'a list option" where
  "swap_at xs i k =
     (if i < length xs \<and> k < length xs then Some (xs[i := xs ! k, k := xs ! i]) else None)"

text \<open>
  The loop \<^verbatim>\<open>for ( size_t j = current_he.firstEntry(); j < current_he.firstInvalidEntry(); ++j )\<close>
  of \<^verbatim>\<open>create_contraction_hierarchy\<close>, from position \<open>j\<close> on.  The state is the incidence
  array, the size of the hyperedge and its hash; \<open>first\<close> is \<^verbatim>\<open>firstEntry()\<close>, which the
  loop does not change.  A disabled pin is swapped with the last active pin, the size is
  decremented and the same position is looked at again (\<^verbatim>\<open>--j\<close> followed by the loop's
  \<^verbatim>\<open>++j\<close>).  \<^verbatim>\<open>decrementSize()\<close> of a hyperedge of size 0 would wrap the unsigned size
  around: \<open>None\<close>.  \<open>hashf\<close> stands for \<^verbatim>\<open>math::hash\<close>.
\<close>

function compact_pins ::
  "Hypernode list \<Rightarrow> (nat \<Rightarrow> 64 word) \<Rightarrow> nat \<Rightarrow> nat \<Rightarrow> nat list \<Rightarrow> nat \<Rightarrow> 64 word
     \<Rightarrow> (nat list \<times> nat \<times> 64 word) option" where
  "compact_pins hns hashf first j arr sz h =
     (if j < first + sz then
        (case nth_opt arr j of
           None \<Rightarrow> None
         | Some pin \<Rightarrow>
            (case nth_opt hns pin of
               None \<Rightarrow> None
             | Some n \<Rightarrow>
                 if \<not> hn_valid n then
                   (case swap_at arr j (first + sz - 1) of
                      None \<Rightarrow> None
                    | Some arr' \<Rightarrow>
                        if sz = 0 then None
                        else compact_pins hns hashf first j arr' (sz - 1) h)
                 else compact_pins hns hashf first (j + 1) arr sz (h + hashf pin)))
      else Some (arr, sz, h))"
  by pat_completeness auto
termination
  by (relation "measure (\<lambda>(hns, hashf, first, j, arr, sz, h). first + sz - j)") auto

declare compact_pins.simps [simp del]

text \<open>
  \<^verbatim>\<open>std::sort(begin + invalid_pins_start, begin + invalid_pins_end, cmp)\<close> with
  \<^verbatim>\<open>cmp(u, v) = contraction_index[u] > contraction_index[v]\<close>: the range is rearranged
  into decreasing order of contraction index.  \<^verbatim>\<open>std::sort\<close> leaves the order of pins
  with equal index open; the model keeps their order.  A range that is not inside the
  array, or a pin that is no index of the table, is \<open>None\<close>.
\<close>

definition sort_remainder :: "int list \<Rightarrow> nat list \<Rightarrow> nat \<Rightarrow> nat \<Rightarrow> nat list option" where
  "sort_remainder contraction_index arr invalid_pins_start invalid_pins_end =
     (if invalid_pins_start \<le> invalid_pins_end \<and> invalid_pins_end \<le> length arr
         \<and> (\<forall>p\<in>set (slice arr invalid_pins_start invalid_pins_end). p < length contraction_index)
      then Some (take invalid_pins_start arr
                 @ sort_key (\<lambda>p. - (contraction_index ! p))
                     (slice arr invalid_pins_start invalid_pins_end)
                 @ drop invalid_pins_end arr)
      else None)"

text \<open>
  The body of the loop over the hyperedges in \<^verbatim>\<open>create_contraction_hierarchy\<close>, for
  hyperedge \<open>he\<close>.  A disabled hyperedge is enabled for the compaction and disabled again
  after it; \<open>seed\<close> stands for \<^verbatim>\<open>Hypergraph::kEdgeHashSeed\<close>.
\<close>

definition create_contraction_hierarchy_at ::
  "(nat \<Rightarrow> 64 word) \<Rightarrow> 64 word \<Rightarrow> int list \<Rightarrow> nat \<Rightarrow> Hypergraph \<Rightarrow> Hypergraph option" where
  "create_contraction_hierarchy_at hashf seed contraction_index he hg =
     (case nth_opt (hyperedges hg) he of
        None \<Rightarrow> None
      | Some current_he \<Rightarrow>
          let isDisabled = \<not> he_valid current_he;
              enabled_he = (if isDisabled then current_he\<lparr>he_valid := True\<rparr> else current_he)
          in (case compact_pins (hypernodes hg) hashf (he_begin enabled_he) (he_begin enabled_he)
                     (incidence_array hg) (he_size enabled_he) seed of
                None \<Rightarrow> None
              | Some (arr, sz, h) \<Rightarrow>
                  let compacted_he = enabled_he\<lparr>he_size := sz, he_hash := h\<rparr>;
                      final_he = (if isDisabled then compacted_he\<lparr>he_valid := False\<rparr>
                                  else compacted_he);
                      edges = (hyperedges hg)[he := final_he]
                  in (case nth_opt edges (he + 1) of
                        None \<Rightarrow> None
                      | Some next_he \<Rightarrow>
                          (case sort_remainder contraction_index arr (firstInvalidEntry final_he)
                                  (he_begin next_he) of
                             None \<Rightarrow> None
                           | Some arr' \<Rightarrow>
                               Some (hg\<lparr>hyperedges := edges, incidence_array := arr'\<rparr>)))))"

text \<open>\<^verbatim>\<open>for ( HyperedgeID he = start; he < end; ++he )\<close> of the lambda.\<close>

definition create_contraction_hierarchy ::
  "(nat \<Rightarrow> 64 word) \<Rightarrow> 64 word \<Rightarrow> int list \<Rightarrow> nat \<times> nat \<Rightarrow> Hypergraph \<Rightarrow> Hypergraph option" where
  "create_contraction_hierarchy hashf seed contraction_index r hg =
     foldM (create_contraction_hierarchy_at hashf seed contraction_index) [fst r..<snd r] hg"

text \<open>Phase 3: the hyperedges are split among the workers as the history is in phase 2.\<close>

definition phase3 ::
  "(nat \<Rightarrow> 64 word) \<Rightarrow> 64 word \<Rightarrow> int list \<Rightarrow> nat \<Rightarrow> ((nat \<times> nat) list \<Rightarrow> (nat \<times> nat) list)
     \<Rightarrow> Hypergraph \<Rightarrow> Hypergraph option" where
  "phase3 hashf seed contraction_index num_threads pool_order hg =
     (case range_split num_threads (num_hyperedges hg) of
        None \<Rightarrow> None
      | Some tasks \<Rightarrow>
          foldM (create_contraction_hierarchy hashf seed contraction_index) (pool_order tasks) hg)"

section \<open>The whole merge\<close>

text \<open>
  \<^verbatim>\<open>mergeCommunityInducedSectionHypergraphs\<close>.  \<open>task_order\<close> and \<open>pool_order\<close> stand for
  the order in which the pool runs the tasks of phase 1 and the ranges of the phases 2
  and 3.
\<close>

definition mergeCommunityInducedSectionHypergraphs ::
  "(nat \<Rightarrow> 64 word) \<Rightarrow> 64 word \<Rightarrow> nat
     \<Rightarrow> (CommunitySubhypergraph list \<Rightarrow> CommunitySubhypergraph list)
     \<Rightarrow> ((nat \<times> nat) list \<Rightarrow> (nat \<times> nat) list)
     \<Rightarrow> Hypergraph \<Rightarrow> CommunitySubhypergraph list \<Rightarrow> ContractionMemento list
     \<Rightarrow> Hypergraph option" where
  "mergeCommunityInducedSectionHypergraphs hashf seed num_threads task_order pool_order
       hypergraph cs history =
     (case phase1 task_order cs (phase0 cs hypergraph) of
        None \<Rightarrow> None
      | Some hg1 \<Rightarrow>
         (case phase2 history (num_hypernodes hg1) num_threads pool_order of
            None \<Rightarrow> None
          | Some contraction_index \<Rightarrow>
              phase3 hashf seed contraction_index num_threads pool_order hg1))"

section \<open>Well-formed pin ranges and example inputs\<close>

text \<open>
  What the body of the phase-3 loop needs of hyperedge \<open>he\<close> to stay inside the vectors:
  the hyperedge and its successor exist, the active pins end before the successor begins,
  the reserved range lies inside the incidence array, every active pin is a hypernode and
  every pin of the reserved range is an index of the contraction-index table.
\<close>

definition range_ok :: "nat \<Rightarrow> Hypergraph \<Rightarrow> nat \<Rightarrow> bool" where
  "range_ok table_size hg he \<longleftrightarrow>
     he + 1 < length (hyperedges hg)
     \<and> firstInvalidEntry (hyperedges hg ! he) \<le> he_begin (hyperedges hg ! (he + 1))
     \<and> he_begin (hyperedges hg ! (he + 1)) \<le> length (incidence_array hg)
     \<and> (\<forall>p\<in>set (pins hg he). p < length (hypernodes hg))
     \<and> (\<forall>p\<in>set (pins hg he @ invalid_pins hg he). p < table_size)"

text \<open>One hyperedge with the pins 0, 1, 2, of which hypernode 0 is disabled.\<close>

definition ex_hg :: Hypergraph where
  "ex_hg = \<lparr>num_hypernodes = 3, num_hyperedges = 1, num_pins = 3,
     current_num_hypernodes = 2, current_num_hyperedges = 1, current_num_pins = 2,
     hypernodes = [\<lparr>hn_incident_nets = [0], hn_weight = 1, hn_valid = False\<rparr>,
                   \<lparr>hn_incident_nets = [0], hn_weight = 2, hn_valid = True\<rparr>,
                   \<lparr>hn_incident_nets = [0], hn_weight = 1, hn_valid = True\<rparr>],
     hyperedges = [\<lparr>he_begin = 0, he_size = 3, he_weight = 1, he_valid = True, he_hash = 0\<rparr>,
                   \<lparr>he_begin = 3, he_size = 0, he_weight = 0, he_valid = True, he_hash = 0\<rparr>],
     incidence_array = [0, 1, 2],
     communities = [0, 0, 0]\<rparr>"

text \<open>One hyperedge with the pins 0, 1, 2, 3, of which only hypernode 0 is enabled.\<close>

definition ex_hg2 :: Hypergraph where
  "ex_hg2 = \<lparr>num_hypernodes = 4, num_hyperedges = 1, num_pins = 4,
     current_num_hypernodes = 1, current_num_hyperedges = 1, current_num_pins = 1,
     hypernodes = [\<lparr>hn_incident_nets = [0], hn_weight = 4, hn_valid = True\<rparr>,
                   \<lparr>hn_incident_nets = [0], hn_weight = 1, hn_valid = False\<rparr>,
                   \<lparr>hn_incident_nets = [0], hn_weight = 1, hn_valid = False\<rparr>,
                   \<lparr>hn_incident_nets = [0], hn_weight = 1, hn_valid = False\<rparr>],
     hyperedges = [\<lparr>he_begin = 0, he_size = 4, he_weight = 1, he_valid = True, he_hash = 0\<rparr>,
                   \<lparr>he_begin = 4, he_size = 0, he_weight = 0, he_valid = True, he_hash = 0\<rparr>],
     incidence_array = [0, 1, 2, 3],
     communities = [0, 0, 0, 0]\<rparr>"

text \<open>
  The whole reserved range of a hyperedge, from its first entry to the first entry of its
  successor: the active pins followed by the pins behind \<^verbatim>\<open>firstInvalidEntry\<close>.
\<close>

definition full_range :: "Hypergraph \<Rightarrow> nat \<Rightarrow> nat list" where
  "full_range hg he =
     slice (incidence_array hg) (he_begin (hyperedges hg ! he)) (he_begin (hyperedges hg ! (he + 1)))"

text \<open>Every hyperedge of the hypergraph has a well-formed pin range.\<close>

definition wf_ranges :: "nat \<Rightarrow> Hypergraph \<Rightarrow> bool" where
  "wf_ranges table_size hg \<longleftrightarrow> (\<forall>he<num_hyperedges hg. range_ok table_size hg he)"

text \<open>
  What phase 3 has done to hyperedge \<open>he\<close> of \<open>hg0\<close> once it has been processed: the active
  prefix holds the previously active pins whose hypernodes are enabled, and the rest of the
  range holds the removed pins and the pins that were already inactive, sorted by decreasing
  contraction index.
\<close>

definition edge_done :: "int list \<Rightarrow> Hypergraph \<Rightarrow> Hypergraph \<Rightarrow> nat \<Rightarrow> bool" where
  "edge_done ci hg0 hg he \<longleftrightarrow>
     firstInvalidEntry (hyperedges hg ! he) \<le> he_begin (hyperedges hg ! (he + 1))
     \<and> (\<exists>removed.
           mset (pins hg he) = filter_mset (\<lambda>p. hn_valid (hypernodes hg0 ! p)) (mset (pins hg0 he))
         \<and> mset removed = filter_mset (\<lambda>p. \<not> hn_valid (hypernodes hg0 ! p)) (mset (pins hg0 he))
         \<and> invalid_pins hg he = sort_key (\<lambda>p. - (ci ! p)) (removed @ invalid_pins hg0 he))"

text \<open>
  What a phase-3 step never touches: the hypernodes, the number of hyperedges, the first
  entry of every hyperedge and the length of the incidence array; and what it leaves of a
  hyperedge it has not processed: its record and its reserved range.
\<close>

definition same_frame :: "Hypergraph \<Rightarrow> Hypergraph \<Rightarrow> bool" where
  "same_frame hg0 hg \<longleftrightarrow>
     hypernodes hg = hypernodes hg0 \<and> num_hyperedges hg = num_hyperedges hg0
     \<and> length (hyperedges hg) = length (hyperedges hg0)
     \<and> (\<forall>k. he_begin (hyperedges hg ! k) = he_begin (hyperedges hg0 ! k))
     \<and> length (incidence_array hg) = length (incidence_array hg0)"

definition same_edge :: "Hypergraph \<Rightarrow> Hypergraph \<Rightarrow> nat \<Rightarrow> bool" where
  "same_edge hg0 hg he \<longleftrightarrow>
     hyperedges hg ! he = hyperedges hg0 ! he \<and> full_range hg he = full_range hg0 he"

text \<open>The state of phase 3 after the hyperedges in \<open>processed\<close> have been processed.\<close>

definition phase3_inv :: "int list \<Rightarrow> Hypergraph \<Rightarrow> nat set \<Rightarrow> Hypergraph \<Rightarrow> bool" where
  "phase3_inv ci hg0 processed hg \<longleftrightarrow>
     same_frame hg0 hg
     \<and> (\<forall>he<num_hyperedges hg0. he \<notin> processed \<longrightarrow> same_edge hg0 hg he)
     \<and> (\<forall>he<num_hyperedges hg0. he \<in> processed \<longrightarrow> edge_done ci hg0 hg he)"

text \<open>
  Two hyperedges, \<open>e0\<close> with the pins 0, 1, 2, 3 and \<open>e1\<close> with the pins 3, 0, 1; only
  hypernode 0 is enabled.
\<close>

definition ex_hg3 :: Hypergraph where
  "ex_hg3 = \<lparr>num_hypernodes = 4, num_hyperedges = 2, num_pins = 7,
     current_num_hypernodes = 1, current_num_hyperedges = 2, current_num_pins = 2,
     hypernodes = [\<lparr>hn_incident_nets = [0, 1], hn_weight = 4, hn_valid = True\<rparr>,
                   \<lparr>hn_incident_nets = [0, 1], hn_weight = 1, hn_valid = False\<rparr>,
                   \<lparr>hn_incident_nets = [0], hn_weight = 1, hn_valid = False\<rparr>,
                   \<lparr>hn_incident_nets = [0, 1], hn_weight = 1, hn_valid = False\<rparr>],
     hyperedges = [\<lparr>he_begin = 0, he_size = 4, he_weight = 1, he_valid = True, he_hash = 0\<rparr>,
                   \<lparr>he_begin = 4, he_size = 3, he_weight = 1, he_valid = True, he_hash = 0\<rparr>,
                   \<lparr>he_begin = 7, he_size = 0, he_weight = 0, he_valid = True, he_hash = 0\<rparr>],
     incidence_array = [0, 1, 2, 3, 3, 0, 1],
     communities = [0, 0, 0, 0]\<rparr>"

text \<open>A history that absorbs the hypernodes 2, 3 and 1, in this order.\<close>

definition ex_history :: "ContractionMemento list" where
  "ex_history = [\<lparr>memento_u = 0, memento_v = 2\<rparr>, \<lparr>memento_u = 0, memento_v = 3\<rparr>,
                 \<lparr>memento_u = 0, memento_v = 1\<rparr>]"

text \<open>The scenario of the spec: the hypernodes 0, 1 in community 0 and 2, 3 in community 1,
  the hyperedges \<open>e0 = {0, 1, 2}\<close> and \<open>e1 = {2, 3}\<close>, all weights 1.\<close>

definition scenario_hg :: Hypergraph where
  "scenario_hg =
     \<lparr>num_hypernodes = 4, num_hyperedges = 2, num_pins = 5,
      current_num_hypernodes = 4, current_num_hyperedges = 2, current_num_pins = 5,
      hypernodes = [\<lparr>hn_incident_nets = [0], hn_weight = 1, hn_valid = True\<rparr>,
                    \<lparr>hn_incident_nets = [0], hn_weight = 1, hn_valid = True\<rparr>,
                    \<lparr>hn_incident_nets = [0, 1], hn_weight = 1, hn_valid = True\<rparr>,
                    \<lparr>hn_incident_nets = [1], hn_weight = 1, hn_valid = True\<rparr>],
      hyperedges = [\<lparr>he_begin = 0, he_size = 3, he_weight = 1, he_valid = True, he_hash = 0\<rparr>,
                    \<lparr>he_begin = 3, he_size = 2, he_weight = 1, he_valid = True, he_hash = 0\<rparr>,
                    \<lparr>he_begin = 5, he_size = 0, he_weight = 0, he_valid = True, he_hash = 0\<rparr>],
      incidence_array = [0, 1, 2, 2, 3],
      communities = [0, 0, 1, 1]\<rparr>"

text \<open>The two community sub-hypergraphs that extraction yields for the scenario.\<close>

definition scenario_A :: CommunitySubhypergraph where
  "scenario_A =
     \<lparr>community_id = 0, num_hn_not_in_community = 1, num_pins_not_in_community = 1,
      subhypergraph =
        \<lparr>num_hypernodes = 3, num_hyperedges = 1, num_pins = 3,
         current_num_hypernodes = 3, current_num_hyperedges = 1, current_num_pins = 3,
         hypernodes = [\<lparr>hn_incident_nets = [0], hn_weight = 1, hn_valid = True\<rparr>,
                       \<lparr>hn_incident_nets = [0], hn_weight = 1, hn_valid = True\<rparr>,
                       \<lparr>hn_incident_nets = [0], hn_weight = 1, hn_valid = True\<rparr>],
         hyperedges = [\<lparr>he_begin = 0, he_size = 3, he_weight = 1, he_valid = True, he_hash = 3\<rparr>,
                       \<lparr>he_begin = 3, he_size = 0, he_weight = 0, he_valid = True, he_hash = 0\<rparr>],
         incidence_array = [0, 1, 2],
         communities = [0, 0, 1]\<rparr>,
      subhypergraph_to_hypergraph_hn = [0, 1, 2],
      subhypergraph_to_hypergraph_he =
        [\<lparr>original_he = 0, incidence_array_start = 0, incidence_array_end = 2\<rparr>]\<rparr>"

definition scenario_B :: CommunitySubhypergraph where
  "scenario_B =
     \<lparr>community_id = 1, num_hn_not_in_community = 2, num_pins_not_in_community = 2,
      subhypergraph =
        \<lparr>num_hypernodes = 4, num_hyperedges = 2, num_pins = 5,
         current_num_hypernodes = 4, current_num_hyperedges = 2, current_num_pins = 5,
         hypernodes = [\<lparr>hn_incident_nets = [0], hn_weight = 1, hn_valid = True\<rparr>,
                       \<lparr>hn_incident_nets = [0], hn_weight = 1, hn_valid = True\<rparr>,
                       \<lparr>hn_incident_nets = [0, 1], hn_weight = 1, hn_valid = True\<rparr>,
                       \<lparr>hn_incident_nets = [1], hn_weight = 1, hn_valid = True\<rparr>],
         hyperedges = [\<lparr>he_begin = 0, he_size = 3, he_weight = 1, he_valid = True, he_hash = 3\<rparr>,
                       \<lparr>he_begin = 3, he_size = 2, he_weight = 1, he_valid = True, he_hash = 5\<rparr>,
                       \<lparr>he_begin = 5, he_size = 0, he_weight = 0, he_valid = True, he_hash = 0\<rparr>],
         incidence_array = [0, 1, 2, 2, 3],
         communities = [0, 0, 1, 1]\<rparr>,
      subhypergraph_to_hypergraph_hn = [0, 1, 2, 3],
      subhypergraph_to_hypergraph_he =
        [\<lparr>original_he = 0, incidence_array_start = 2, incidence_array_end = 3\<rparr>,
         \<lparr>original_he = 1, incidence_array_start = 0, incidence_array_end = 2\<rparr>]\<rparr>"

text \<open>A hypergraph with a hypernode of weight 2: hypernode 0 in community 0, the hypernodes
  1 and 2 in community 1, \<open>e0 = {1, 0}\<close> and \<open>e1 = {1, 2}\<close>.\<close>

definition weighted_hg :: Hypergraph where
  "weighted_hg =
     \<lparr>num_hypernodes = 3, num_hyperedges = 2, num_pins = 4,
      current_num_hypernodes = 3, current_num_hyperedges = 2, current_num_pins = 4,
      hypernodes = [\<lparr>hn_incident_nets = [0], hn_weight = 2, hn_valid = True\<rparr>,
                    \<lparr>hn_incident_nets = [0, 1], hn_weight = 1, hn_valid = True\<rparr>,
                    \<lparr>hn_incident_nets = [1], hn_weight = 1, hn_valid = True\<rparr>],
      hyperedges = [\<lparr>he_begin = 0, he_size = 2, he_weight = 1, he_valid = True, he_hash = 0\<rparr>,
                    \<lparr>he_begin = 2, he_size = 2, he_weight = 1, he_valid = True, he_hash = 0\<rparr>,
                    \<lparr>he_begin = 4, he_size = 0, he_weight = 0, he_valid = True, he_hash = 0\<rparr>],
      incidence_array = [1, 0, 1, 2],
      communities = [0, 1, 1]\<rparr>"

text \<open>A hypergraph whose community 1 does not touch hyperedge 0: \<open>e0 = {0, 1}\<close> of weight 10
  in community 0, \<open>e1 = {2, 3}\<close> and \<open>e2 = {2, 4}\<close> of weight 1 in community 1.\<close>

definition parallel_hg :: Hypergraph where
  "parallel_hg =
     \<lparr>num_hypernodes = 5, num_hyperedges = 3, num_pins = 6,
      current_num_hypernodes = 5, current_num_hyperedges = 3, current_num_pins = 6,
      hypernodes = [\<lparr>hn_incident_nets = [0], hn_weight = 1, hn_valid = True\<rparr>,
                    \<lparr>hn_incident_nets = [0], hn_weight = 1, hn_valid = True\<rparr>,
                    \<lparr>hn_incident_nets = [1, 2], hn_weight = 1, hn_valid = True\<rparr>,
                    \<lparr>hn_incident_nets = [1], hn_weight = 1, hn_valid = True\<rparr>,
                    \<lparr>hn_incident_nets = [2], hn_weight = 1, hn_valid = True\<rparr>],
      hyperedges = [\<lparr>he_begin = 0, he_size = 2, he_weight = 10, he_valid = True, he_hash = 0\<rparr>,
                    \<lparr>he_begin = 2, he_size = 2, he_weight = 1, he_valid = True, he_hash = 0\<rparr>,
                    \<lparr>he_begin = 4, he_size = 2, he_weight = 1, he_valid = True, he_hash = 0\<rparr>,
                    \<lparr>he_begin = 6, he_size = 0, he_weight = 0, he_valid = True, he_hash = 0\<rparr>],
      incidence_array = [0, 1, 2, 3, 2, 4],
      communities = [0, 0, 1, 1, 1]\<rparr>"

text \<open>The sub-hypergraph of community 1 of the last hypergraph after the coarsener contracted
  hypernode 4 into hypernode 3 (local 2 into local 1): the local hyperedge 1 became
  parallel to the local hyperedge 0 and was disabled, and the local hyperedge 0 took its
  weight.\<close>

definition parallel_B_coarsened :: CommunitySubhypergraph where
  "parallel_B_coarsened =
     \<lparr>community_id = 1, num_hn_not_in_community = 0, num_pins_not_in_community = 0,
      subhypergraph =
        \<lparr>num_hypernodes = 3, num_hyperedges = 2, num_pins = 4,
         current_num_hypernodes = 2, current_num_hyperedges = 1, current_num_pins = 2,
         hypernodes = [\<lparr>hn_incident_nets = [0], hn_weight = 1, hn_valid = True\<rparr>,
                       \<lparr>hn_incident_nets = [0], hn_weight = 2, hn_valid = True\<rparr>,
                       \<lparr>hn_incident_nets = [1], hn_weight = 1, hn_valid = False\<rparr>],
         hyperedges = [\<lparr>he_begin = 0, he_size = 2, he_weight = 2, he_valid = True, he_hash = 1\<rparr>,
                       \<lparr>he_begin = 2, he_size = 2, he_weight = 1, he_valid = False, he_hash = 1\<rparr>,
                       \<lparr>he_begin = 4, he_size = 0, he_weight = 0, he_valid = True, he_hash = 0\<rparr>],
         incidence_array = [0, 1, 0, 1],
         communities = [1, 1, 1]\<rparr>,
      subhypergraph_to_hypergraph_hn = [2, 3, 4],
      subhypergraph_to_hypergraph_he =
        [\<lparr>original_he = 1, incidence_array_start = 0, incidence_array_end = 2\<rparr>,
         \<lparr>original_he = 2, incidence_array_start = 0, incidence_array_end = 2\<rparr>]\<rparr>"

section \<open>Properties\<close>

lemma foldM_append:
  "foldM f (xs @ ys) s = (case foldM f xs s of None \<Rightarrow> None | Some s' \<Rightarrow> foldM f ys s')"
  by (induction xs arbitrary: s) (auto split: option.splits)

subsection \<open>Phase 2\<close>

lemma to_int32_small: "i < 2 ^ 31 \<Longrightarrow> to_int32 i = int i"
  by (simp add: to_int32_def Let_def)

lemma foldM_concat:
  "foldM (\<lambda>r. foldM f (g r)) rs s = foldM f (concat (map g rs)) s"
  by (induction rs arbitrary: s) (auto simp: foldM_append split: option.splits)

lemma contraction_index_writes:
  assumes "set idxs \<subseteq> {..<length history}"
    and "inj_on (\<lambda>i. memento_v (history ! i)) {..<length history}"
    and "\<forall>i<length history. memento_v (history ! i) < length ci"
  shows "\<exists>ci'. foldM (contraction_index_at history) idxs ci = Some ci'
           \<and> length ci' = length ci
           \<and> (\<forall>i\<in>set idxs. ci' ! memento_v (history ! i) = to_int32 i)
           \<and> (\<forall>hn. hn \<notin> (\<lambda>i. memento_v (history ! i)) ` set idxs \<longrightarrow> ci' ! hn = ci ! hn)"
  using assms
proof (induction idxs arbitrary: ci)
  case Nil
  then show ?case by simp
next
  case (Cons i idxs)
  let ?v = "\<lambda>i. memento_v (history ! i)"
  let ?ci1 = "ci[?v i := to_int32 i]"
  from Cons.prems have i: "i < length history" and vi: "?v i < length ci" by auto
  then have step: "contraction_index_at history i ci = Some ?ci1"
    by (simp add: contraction_index_at_def nth_opt_def upd_opt_def)
  from Cons.prems have "\<forall>i<length history. ?v i < length ?ci1" by simp
  with Cons.IH [of ?ci1] Cons.prems
  obtain ci' where r: "foldM (contraction_index_at history) idxs ?ci1 = Some ci'"
    and len: "length ci' = length ?ci1"
    and hit: "\<forall>j\<in>set idxs. ci' ! ?v j = to_int32 j"
    and miss: "\<forall>hn. hn \<notin> ?v ` set idxs \<longrightarrow> ci' ! hn = ?ci1 ! hn"
    by auto
  have "ci' ! ?v i = to_int32 i"
  proof (cases "?v i \<in> ?v ` set idxs")
    case True
    then obtain j where j: "j \<in> set idxs" "?v j = ?v i" by auto
    with Cons.prems(1) have "j < length history" by auto
    with j i Cons.prems(2) have "j = i" by (auto dest: inj_onD)
    with hit j show ?thesis by auto
  next
    case False
    with miss vi show ?thesis by simp
  qed
  moreover have "\<forall>hn. hn \<notin> ?v ` set (i # idxs) \<longrightarrow> ci' ! hn = ci ! hn"
    using miss by auto
  ultimately show ?case using step r len hit by auto
qed

lemma range_split_cover:
  assumes "range_split num_threads n = Some ts"
  shows "(\<Union>r\<in>set ts. {fst r..<snd r}) = {0..<n}"
proof (cases "n div num_threads \<ge> 1 \<and> num_threads \<noteq> 1")
  case False
  with assms show ?thesis by (auto simp: range_split_def Let_def split: if_splits)
next
  case True
  define step where "step = n div num_threads"
  from assms have T: "num_threads > 0" by (auto simp: range_split_def split: if_splits)
  from True have s: "step \<ge> 1" by (simp add: step_def)
  have le: "num_threads * step \<le> n" by (simp add: step_def)
  from assms True T have ts: "ts = map (\<lambda>i. (i * step, if i = num_threads - 1 then n else (i + 1) * step)) [0..<num_threads]"
    by (auto simp: range_split_def Let_def step_def)
  show ?thesis
  proof (rule set_eqI, rule iffI)
    fix x assume "x \<in> (\<Union>r\<in>set ts. {fst r..<snd r})"
    then obtain i where i: "i < num_threads" and x: "i * step \<le> x" "x < (if i = num_threads - 1 then n else (i + 1) * step)"
      by (auto simp: ts)
    have "(i + 1) * step \<le> num_threads * step" using i by (intro mult_le_mono1) simp
    with le x show "x \<in> {0..<n}" by (auto split: if_splits)
  next
    fix x assume "x \<in> {0..<n}"
    then have xn: "x < n" by simp
    show "x \<in> (\<Union>r\<in>set ts. {fst r..<snd r})"
    proof (cases "x < (num_threads - 1) * step")
      case True
      define i where "i = x div step"
      have "i < num_threads - 1" using True s by (simp add: i_def div_less_iff_less_mult)
      moreover have "i * step \<le> x" by (simp add: i_def)
      moreover have "x < (i + 1) * step" using s
        using dividend_less_div_times [of step x] by (simp add: i_def algebra_simps)
      ultimately show ?thesis by (auto simp: ts intro!: bexI [of _ i])
    next
      case False
      then show ?thesis using xn T by (auto simp: ts intro!: bexI [of _ "num_threads - 1"])
    qed
  qed
qed


lemma phase2_table:
  assumes dist: "distinct (map memento_v history)"
    and bound: "\<forall>m\<in>set history. memento_v m < initialNumNodes"
    and small: "length history \<le> 2 ^ 31"
    and threads: "0 < num_threads"
    and order: "\<forall>ts. mset (pool_order ts) = mset ts"
  shows "\<exists>ci. phase2 history initialNumNodes num_threads pool_order = Some ci
           \<and> length ci = initialNumNodes
           \<and> (\<forall>i<length history. ci ! memento_v (history ! i) = int i)
           \<and> (\<forall>hn<initialNumNodes. hn \<notin> memento_v ` set history \<longrightarrow> ci ! hn = - 1)"
proof -
  let ?v = "\<lambda>i. memento_v (history ! i)"
  let ?n = "length history"
  from threads have "\<exists>tasks. range_split num_threads ?n = Some tasks"
    by (simp add: range_split_def Let_def)
  then obtain tasks where tasks: "range_split num_threads ?n = Some tasks" ..
  define idxs where "idxs = concat (map (\<lambda>r. [fst r..<snd r]) (pool_order tasks))"
  define ci0 :: "int list" where "ci0 = replicate initialNumNodes (- 1)"
  have "set (pool_order tasks) = set tasks"
    using order by (metis set_mset_mset)
  then have idxs: "set idxs = {..<?n}"
    using range_split_cover [OF tasks] by (auto simp: idxs_def)
  have inj: "inj_on ?v {..<?n}"
    using dist by (auto simp: inj_on_def distinct_conv_nth)
  have vset: "?v ` {..<?n} = memento_v ` set history"
  proof -
    have "set history = (\<lambda>i. history ! i) ` {..<?n}"
      by (auto simp: in_set_conv_nth)
    then show ?thesis by (simp add: image_image)
  qed
  have run: "phase2 history initialNumNodes num_threads pool_order
             = foldM (contraction_index_at history) idxs ci0"
    unfolding phase2_def tasks construct_contraction_index_def [abs_def] idxs_def ci0_def
    by (simp add: foldM_concat)
  have sub: "set idxs \<subseteq> {..<?n}" using idxs by simp
  have inrange: "\<forall>i<?n. ?v i < length ci0"
    using bound by (simp add: ci0_def)
  from contraction_index_writes [OF sub inj inrange]
  obtain ci where ci: "foldM (contraction_index_at history) idxs ci0 = Some ci"
    and len0: "length ci = length ci0"
    and hit: "\<forall>i\<in>set idxs. ci ! ?v i = to_int32 i"
    and miss: "\<forall>hn. hn \<notin> ?v ` set idxs \<longrightarrow> ci ! hn = ci0 ! hn"
    by blast
  have len: "length ci = initialNumNodes" using len0 by (simp add: ci0_def)
  have hit': "\<forall>i<?n. ci ! ?v i = int i"
  proof (intro allI impI)
    fix i assume i: "i < ?n"
    with small have "i < 2 ^ 31" by simp
    with hit idxs i show "ci ! ?v i = int i" by (simp add: to_int32_small)
  qed
  have miss': "\<forall>hn<initialNumNodes. hn \<notin> memento_v ` set history \<longrightarrow> ci ! hn = - 1"
    using miss idxs vset by (simp add: ci0_def)
  show ?thesis using run ci len hit' miss' by simp
qed

text \<open>
  Claim C6.  After phase 2, when no hypernode is absorbed twice in the merged history, the
  contraction-index table holds \<open>i\<close> at the hypernode absorbed by the memento at position
  \<open>i\<close>, for every position of the history, whatever the size of the pool (at least one
  worker) and whatever the order in which the pool runs the ranges; every other entry is
  still \<open>-1\<close>, and the absorbed hypernodes are in bijection with the positions.  The
  absorbed hypernodes are entries of the table (below \<^verbatim>\<open>initialNumNodes\<close>) and the
  positions fit the table's \<^verbatim>\<open>int\<close> entries.
\<close>

theorem phase2_contraction_index:
  assumes dist: "distinct (map memento_v history)"
    and bound: "\<forall>m\<in>set history. memento_v m < initialNumNodes"
    and small: "length history \<le> 2 ^ 31"
    and threads: "0 < num_threads"
    and order: "\<forall>ts. mset (pool_order ts) = mset ts"
  shows "\<exists>ci. phase2 history initialNumNodes num_threads pool_order = Some ci
           \<and> length ci = initialNumNodes
           \<and> (\<forall>i<length history. ci ! memento_v (history ! i) = int i)
           \<and> (\<forall>hn<initialNumNodes. hn \<notin> memento_v ` set history \<longrightarrow> ci ! hn = - 1)
           \<and> bij_betw (\<lambda>i. memento_v (history ! i)) {..<length history} (memento_v ` set history)
           \<and> bij_betw (\<lambda>hn. ci ! hn) (memento_v ` set history) (int ` {..<length history})"
proof -
  let ?v = "\<lambda>i. memento_v (history ! i)"
  let ?n = "length history"
  from phase2_table [OF assms]
  obtain ci where ci: "phase2 history initialNumNodes num_threads pool_order = Some ci"
    and len: "length ci = initialNumNodes"
    and hit': "\<forall>i<?n. ci ! ?v i = int i"
    and miss': "\<forall>hn<initialNumNodes. hn \<notin> memento_v ` set history \<longrightarrow> ci ! hn = - 1"
    by blast
  have inj: "inj_on ?v {..<?n}"
    using dist by (auto simp: inj_on_def distinct_conv_nth)
  have vset: "?v ` {..<?n} = memento_v ` set history"
  proof -
    have "set history = (\<lambda>i. history ! i) ` {..<?n}"
      by (auto simp: in_set_conv_nth)
    then show ?thesis by (simp add: image_image)
  qed
  have b1: "bij_betw ?v {..<?n} (memento_v ` set history)"
    using inj vset by (simp add: bij_betw_def)
  have b2: "bij_betw (\<lambda>hn. ci ! hn) (memento_v ` set history) (int ` {..<?n})"
  proof (rule bij_betw_byWitness [where f' = "\<lambda>k. ?v (nat k)"])
    show "\<forall>hn\<in>memento_v ` set history. ?v (nat (ci ! hn)) = hn"
      using hit' vset by (auto simp: in_set_conv_nth)
    show "\<forall>k\<in>int ` {..<?n}. ci ! ?v (nat k) = k"
      using hit' by auto
    show "(\<lambda>hn. ci ! hn) ` memento_v ` set history \<subseteq> int ` {..<?n}"
      using hit' by (auto simp: in_set_conv_nth)
    show "(\<lambda>k. ?v (nat k)) ` int ` {..<?n} \<subseteq> memento_v ` set history"
      by auto
  qed
  show ?thesis using ci len hit' miss' b1 b2 by blast
qed

theorem phase2_contraction_index_witness:
  "\<exists>ci. phase2 [\<lparr>memento_u = 0, memento_v = 2\<rparr>, \<lparr>memento_u = 0, memento_v = 1\<rparr>,
                   \<lparr>memento_u = 3, memento_v = 4\<rparr>] 5 2 rev = Some ci
     \<and> length ci = 5 \<and> ci ! 2 = 0 \<and> ci ! 1 = 1 \<and> ci ! 4 = 2 \<and> ci ! 0 = - 1 \<and> ci ! 3 = - 1"
proof -
  let ?h = "[\<lparr>memento_u = 0, memento_v = 2\<rparr>, \<lparr>memento_u = 0, memento_v = 1\<rparr>,
             \<lparr>memento_u = 3, memento_v = 4\<rparr>]"
  have h: "distinct (map memento_v ?h)" "\<forall>m\<in>set ?h. memento_v m < 5" "length ?h \<le> 2 ^ 31"
    "0 < (2::nat)" "\<forall>ts :: (nat \<times> nat) list. mset (rev ts) = mset ts"
    by simp_all
  from phase2_contraction_index [OF h] obtain ci where
    ci: "phase2 ?h 5 2 rev = Some ci" "length ci = 5"
    and hit: "\<forall>i<length ?h. ci ! memento_v (?h ! i) = int i"
    and miss: "\<forall>hn<5. hn \<notin> memento_v ` set ?h \<longrightarrow> ci ! hn = - 1"
    by blast
  from hit [rule_format, of 0] hit [rule_format, of 1] hit [rule_format, of 2]
  have "ci ! 2 = 0" "ci ! 1 = 1" "ci ! 4 = 2" by simp_all
  moreover from miss [rule_format, of 0] miss [rule_format, of 3]
  have "ci ! 0 = - 1" "ci ! 3 = - 1" by simp_all
  ultimately show ?thesis using ci by simp
qed

subsection \<open>Phase 3\<close>

lemma swap_ends:
  "swap_at (pre @ x # mid @ l # post) (length pre) (length pre + Suc (length mid))
     = Some (pre @ l # mid @ x # post)"
  by (simp add: swap_at_def nth_append list_update_append nth_Cons')

lemma swap_same: "i < length xs \<Longrightarrow> swap_at xs i i = Some xs"
  by (simp add: swap_at_def)

lemma compact_pins_result:
  assumes "arr = pre @ seg @ post" "length pre = j" "j + length seg = first + sz" "first \<le> j"
    and "\<forall>p\<in>set seg. p < length hns"
  shows "\<exists>kept removed.
           compact_pins hns hashf first j arr sz h
             = Some (pre @ kept @ removed @ post, sz - length removed,
                     h + sum_list (map hashf kept))
           \<and> mset kept = filter_mset (\<lambda>p. hn_valid (hns ! p)) (mset seg)
           \<and> mset removed = filter_mset (\<lambda>p. \<not> hn_valid (hns ! p)) (mset seg)"
  using assms
proof (induction "length seg" arbitrary: seg pre post j arr sz h rule: less_induct)
  case less
  show ?case
  proof (cases seg)
    case Nil
    with less.prems show ?thesis
      by (subst compact_pins.simps) simp
  next
    case (Cons x rest)
    from less.prems Cons have j: "j < first + sz" and arrj: "nth_opt arr j = Some x"
      and x: "nth_opt hns x = Some (hns ! x)"
      by (auto simp: nth_opt_def nth_append)
    show ?thesis
    proof (cases "hn_valid (hns ! x)")
      case True
      have "\<exists>kept removed.
           compact_pins hns hashf first (j + 1) arr sz (h + hashf x)
             = Some ((pre @ [x]) @ kept @ removed @ post, sz - length removed,
                     (h + hashf x) + sum_list (map hashf kept))
           \<and> mset kept = filter_mset (\<lambda>p. hn_valid (hns ! p)) (mset rest)
           \<and> mset removed = filter_mset (\<lambda>p. \<not> hn_valid (hns ! p)) (mset rest)"
        using less.prems Cons by (intro less.hyps) auto
      then obtain kept removed where
        r: "compact_pins hns hashf first (j + 1) arr sz (h + hashf x)
             = Some ((pre @ [x]) @ kept @ removed @ post, sz - length removed,
                     (h + hashf x) + sum_list (map hashf kept))"
        and k: "mset kept = filter_mset (\<lambda>p. hn_valid (hns ! p)) (mset rest)"
        and m: "mset removed = filter_mset (\<lambda>p. \<not> hn_valid (hns ! p)) (mset rest)"
        by blast
      have "compact_pins hns hashf first j arr sz h
            = Some (pre @ (x # kept) @ removed @ post, sz - length removed,
                     h + sum_list (map hashf (x # kept)))"
        using j arrj x True r by (subst compact_pins.simps) (simp add: add.assoc)
      moreover have "mset (x # kept) = filter_mset (\<lambda>p. hn_valid (hns ! p)) (mset seg)"
        using k True Cons by simp
      moreover have "mset removed = filter_mset (\<lambda>p. \<not> hn_valid (hns ! p)) (mset seg)"
        using m True Cons by simp
      ultimately show ?thesis by blast
    next
      case False
      from j have sz: "sz \<noteq> 0" "first + sz - 1 = j + length rest"
        using less.prems Cons by auto
      show ?thesis
      proof (cases rest rule: rev_cases)
        case Nil
        with less.prems Cons have sw: "swap_at arr j (first + sz - 1) = Some arr"
          using sz by (simp add: swap_same)
        have r: "compact_pins hns hashf first j arr (sz - 1) h = Some (arr, sz - 1, h)"
          using less.prems Cons Nil by (subst compact_pins.simps) auto
        have "compact_pins hns hashf first j arr sz h
            = Some (pre @ [] @ [x] @ post, sz - length [x], h + sum_list (map hashf []))"
          using j arrj x False sw sz r less.prems Cons Nil
          by (subst compact_pins.simps) simp
        moreover have "mset [] = filter_mset (\<lambda>p. hn_valid (hns ! p)) (mset seg)"
          "mset [x] = filter_mset (\<lambda>p. \<not> hn_valid (hns ! p)) (mset seg)"
          using False Cons Nil by simp_all
        ultimately show ?thesis by blast
      next
        case (snoc mid l)
        let ?arr1 = "pre @ l # mid @ x # post"
        have sw: "swap_at arr j (first + sz - 1) = Some ?arr1"
          using less.prems Cons snoc sz swap_ends [of pre x mid l post] by simp
        have "\<exists>kept removed.
           compact_pins hns hashf first j ?arr1 (sz - 1) h
             = Some (pre @ kept @ removed @ (x # post), (sz - 1) - length removed,
                     h + sum_list (map hashf kept))
           \<and> mset kept = filter_mset (\<lambda>p. hn_valid (hns ! p)) (mset (l # mid))
           \<and> mset removed = filter_mset (\<lambda>p. \<not> hn_valid (hns ! p)) (mset (l # mid))"
          using less.prems Cons snoc sz by (intro less.hyps) auto
        then obtain kept removed where
          r: "compact_pins hns hashf first j ?arr1 (sz - 1) h
             = Some (pre @ kept @ removed @ (x # post), (sz - 1) - length removed,
                     h + sum_list (map hashf kept))"
          and k: "mset kept = filter_mset (\<lambda>p. hn_valid (hns ! p)) (mset (l # mid))"
          and m: "mset removed = filter_mset (\<lambda>p. \<not> hn_valid (hns ! p)) (mset (l # mid))"
          by blast
        have "compact_pins hns hashf first j arr sz h
            = Some (pre @ kept @ (removed @ [x]) @ post, sz - length (removed @ [x]),
                     h + sum_list (map hashf kept))"
          using j arrj x False sw sz r by (subst compact_pins.simps) simp
        moreover have "mset kept = filter_mset (\<lambda>p. hn_valid (hns ! p)) (mset seg)"
          using k False Cons snoc by simp
        moreover have "mset (removed @ [x]) = filter_mset (\<lambda>p. \<not> hn_valid (hns ! p)) (mset seg)"
          using m False Cons snoc by simp
        ultimately show ?thesis by blast
      qed
    qed
  qed
qed


lemma slice_decomp:
  assumes "a \<le> b" "b \<le> length xs"
  shows "xs = take a xs @ slice xs a b @ drop b xs"
proof -
  have "drop a xs = take (b - a) (drop a xs) @ drop (b - a) (drop a xs)"
    by (rule append_take_drop_id [symmetric])
  also have "drop (b - a) (drop a xs) = drop b xs" using assms by simp
  finally have "drop a xs = slice xs a b @ drop b xs" by (simp add: slice_def)
  then have "take a xs @ drop a xs = take a xs @ slice xs a b @ drop b xs" by simp
  then show ?thesis by simp
qed

lemma length_slice: "b \<le> length xs \<Longrightarrow> length (slice xs a b) = b - a"
  by (simp add: slice_def)

lemma slice_append_mid:
  "slice (pre @ mid @ post) (length pre) (length pre + length mid) = mid"
  by (simp add: slice_def)

lemma slice_split:
  assumes "a \<le> b" "b \<le> c"
  shows "slice xs a c = slice xs a b @ slice xs b c"
proof -
  have c: "c - a = (b - a) + (c - b)" using assms by simp
  have "take (c - a) (drop a xs) = take (b - a) (drop a xs) @ take (c - b) (drop (b - a) (drop a xs))"
    unfolding c by (rule take_add)
  then show ?thesis using assms by (simp add: slice_def)
qed

lemma create_contraction_hierarchy_at_result:
  assumes he: "he + 1 < length (hyperedges hg)"
    and rng: "firstInvalidEntry (hyperedges hg ! he) \<le> he_begin (hyperedges hg ! (he + 1))"
      "he_begin (hyperedges hg ! (he + 1)) \<le> length (incidence_array hg)"
    and pins_ok: "\<forall>p\<in>set (pins hg he). p < length (hypernodes hg)"
    and ci_ok: "\<forall>p\<in>set (pins hg he @ invalid_pins hg he). p < length ci"
  shows "\<exists>kept removed.
     create_contraction_hierarchy_at hashf seed ci he hg
       = Some (hg\<lparr>hyperedges := (hyperedges hg)
                      [he := (hyperedges hg ! he)\<lparr>he_size := length kept,
                                he_hash := seed + sum_list (map hashf kept)\<rparr>],
                  incidence_array :=
                    take (he_begin (hyperedges hg ! he)) (incidence_array hg) @ kept
                    @ sort_key (\<lambda>p. - (ci ! p)) (removed @ invalid_pins hg he)
                    @ drop (he_begin (hyperedges hg ! (he + 1))) (incidence_array hg)\<rparr>)
     \<and> mset kept = filter_mset (\<lambda>p. hn_valid (hypernodes hg ! p)) (mset (pins hg he))
     \<and> mset removed = filter_mset (\<lambda>p. \<not> hn_valid (hypernodes hg ! p)) (mset (pins hg he))"
proof -
  let ?e = "hyperedges hg ! he"
  let ?nxt = "hyperedges hg ! Suc he"
  let ?arr = "incidence_array hg"
  let ?b = "he_begin ?e"
  let ?fi = "?b + he_size ?e"
  let ?nb = "he_begin ?nxt"
  define pre where "pre = take ?b ?arr"
  define seg where "seg = slice ?arr ?b ?fi"
  define inv where "inv = slice ?arr ?fi ?nb"
  define post where "post = drop ?nb ?arr"
  have fi: "?fi \<le> ?nb" "?nb \<le> length ?arr"
    using rng by (simp_all add: firstInvalidEntry_def)
  have pins_eq: "pins hg he = seg"
    by (simp add: pins_def seg_def firstInvalidEntry_def Let_def)
  have inv_eq: "invalid_pins hg he = inv"
    by (simp add: invalid_pins_def inv_def firstInvalidEntry_def)
  have arr1: "?arr = pre @ slice ?arr ?b ?nb @ post"
    unfolding pre_def post_def using fi by (intro slice_decomp) auto
  have sl: "slice ?arr ?b ?nb = seg @ inv"
    unfolding seg_def inv_def using fi by (intro slice_split) auto
  have arr2: "?arr = pre @ seg @ (inv @ post)" using arr1 sl by simp
  have lpre: "length pre = ?b" using fi by (simp add: pre_def)
  have lseg: "length seg = he_size ?e" using fi by (simp add: seg_def length_slice)
  have linv: "length inv = ?nb - ?fi" using fi by (simp add: inv_def length_slice)
  have segok: "\<forall>p\<in>set seg. p < length (hypernodes hg)" using pins_ok pins_eq by simp
  have "?b + length seg = ?b + he_size ?e" using lseg by simp
  from compact_pins_result [OF arr2 lpre this order_refl segok, of hashf seed]
  obtain kept removed where
    cp: "compact_pins (hypernodes hg) hashf ?b ?b ?arr (he_size ?e) seed
           = Some (pre @ kept @ removed @ inv @ post, he_size ?e - length removed,
                   seed + sum_list (map hashf kept))"
    and k: "mset kept = filter_mset (\<lambda>p. hn_valid (hypernodes hg ! p)) (mset seg)"
    and r: "mset removed = filter_mset (\<lambda>p. \<not> hn_valid (hypernodes hg ! p)) (mset seg)"
    by blast
  have "mset kept + mset removed = mset seg" using k r by simp
  then have lkr: "length kept + length removed = length seg"
    by (metis size_mset size_union)
  then have sz': "he_size ?e - length removed = length kept" using lseg by simp
  let ?arr1 = "pre @ kept @ removed @ inv @ post"
  have len1: "length ?arr1 = length ?arr"
    using lkr arg_cong [OF arr2, of length] by simp
  have nb1: "?nb = length (pre @ kept) + length (removed @ inv)"
    using lpre linv fi lkr lseg by simp
  have sl1: "slice ?arr1 (?b + length kept) ?nb = removed @ inv"
    using slice_append_mid [of "pre @ kept" "removed @ inv" post] lpre nb1 by simp
  have tk1: "take (?b + length kept) ?arr1 = pre @ kept" using lpre by simp
  have dr1: "drop ?nb ?arr1 = post"
  proof -
    have "?nb = length (pre @ kept @ removed @ inv)" using nb1 by simp
    then show ?thesis by (metis append.assoc append_eq_conv_conj)
  qed
  have ci1: "\<forall>p\<in>set (removed @ inv). p < length ci"
  proof -
    have "set_mset (mset removed) \<subseteq> set_mset (mset seg)" unfolding r by auto
    then have "set removed \<subseteq> set seg" by simp
    then show ?thesis using ci_ok pins_eq inv_eq by auto
  qed
  have rng1: "?b + length kept \<le> ?nb" "?nb \<le> length ?arr1"
    using nb1 lpre len1 fi by simp_all
  have srt: "sort_remainder ci ?arr1 (?b + length kept) ?nb
             = Some (pre @ kept @ sort_key (\<lambda>p. - (ci ! p)) (removed @ inv) @ post)"
    unfolding sort_remainder_def sl1 tk1 dr1 using ci1 rng1 by simp
  have e_he: "nth_opt (hyperedges hg) he = Some ?e" using he by (simp add: nth_opt_def)
  have nxt_he: "nth_opt ((hyperedges hg)[he := x]) (Suc he) = Some ?nxt" for x
    using he by (simp add: nth_opt_def)
  have main: "create_contraction_hierarchy_at hashf seed ci he hg
       = Some (hg\<lparr>hyperedges := (hyperedges hg)
                      [he := ?e\<lparr>he_size := length kept,
                                he_hash := seed + sum_list (map hashf kept)\<rparr>],
                  incidence_array := pre @ kept
                    @ sort_key (\<lambda>p. - (ci ! p)) (removed @ inv) @ post\<rparr>)"
  proof (cases "he_valid ?e")
    case True
    then show ?thesis
      unfolding create_contraction_hierarchy_at_def e_he
      by (simp add: Let_def cp sz' nxt_he firstInvalidEntry_def srt)
  next
    case False
    then have eq: "?e\<lparr>he_size := length kept,
                  he_hash := seed + sum_list (map hashf kept), he_valid := False\<rparr>
               = ?e\<lparr>he_size := length kept, he_hash := seed + sum_list (map hashf kept)\<rparr>"
      by (intro Hyperedge.equality) simp_all
    from False show ?thesis
      unfolding create_contraction_hierarchy_at_def e_he
      by (simp add: Let_def cp sz' nxt_he firstInvalidEntry_def srt eq)
  qed
  show ?thesis
    apply (rule exI [of _ kept], rule exI [of _ removed])
    using main k r pins_eq inv_eq by (simp add: pre_def post_def)
qed

text \<open>
  One step of phase 3 changes the record of its hyperedge and the incidence array inside the
  reserved range of that hyperedge, and nothing else.
\<close>

lemma pins_take_full_range:
  assumes "firstInvalidEntry (hyperedges hg ! he) \<le> he_begin (hyperedges hg ! (he + 1))"
  shows "pins hg he = take (he_size (hyperedges hg ! he)) (full_range hg he)"
  using assms by (simp add: pins_def full_range_def slice_def Let_def firstInvalidEntry_def min_def)

lemma invalid_pins_drop_full_range:
  "invalid_pins hg he = drop (he_size (hyperedges hg ! he)) (full_range hg he)"
proof -
  let ?b = "he_begin (hyperedges hg ! he)" and ?s = "he_size (hyperedges hg ! he)"
  let ?nb = "he_begin (hyperedges hg ! (he + 1))"
  have "drop ?s (take (?nb - ?b) (drop ?b (incidence_array hg)))
        = take (?nb - ?b - ?s) (drop (?b + ?s) (incidence_array hg))"
    by (simp add: drop_take add.commute)
  then show ?thesis
    by (simp add: invalid_pins_def full_range_def slice_def firstInvalidEntry_def)
qed

lemma slice_cong:
  assumes "length ys = length xs" "\<forall>k. a \<le> k \<and> k < b \<longrightarrow> ys ! k = xs ! k" "b \<le> length xs"
  shows "slice ys a b = slice xs a b"
proof (rule nth_equalityI)
  show "length (slice ys a b) = length (slice xs a b)"
    using assms(1,3) by (simp add: slice_def)
next
  fix i assume "i < length (slice ys a b)"
  then have i: "i < b - a" "a + i < length ys" using assms(1,3) by (simp_all add: slice_def)
  then show "slice ys a b ! i = slice xs a b ! i"
    using assms by (simp add: slice_def)
qed

lemma create_contraction_hierarchy_at_frame:
  assumes ok: "range_ok (length ci) hg he"
  shows "\<exists>hg' removed.
     create_contraction_hierarchy_at hashf seed ci he hg = Some hg'
     \<and> hypernodes hg' = hypernodes hg
     \<and> num_hyperedges hg' = num_hyperedges hg
     \<and> length (hyperedges hg') = length (hyperedges hg)
     \<and> (\<forall>k. k \<noteq> he \<longrightarrow> hyperedges hg' ! k = hyperedges hg ! k)
     \<and> (\<forall>k. he_begin (hyperedges hg' ! k) = he_begin (hyperedges hg ! k))
     \<and> length (incidence_array hg') = length (incidence_array hg)
     \<and> (\<forall>k. k < he_begin (hyperedges hg ! he) \<or> he_begin (hyperedges hg ! (he + 1)) \<le> k
            \<longrightarrow> incidence_array hg' ! k = incidence_array hg ! k)
     \<and> firstInvalidEntry (hyperedges hg' ! he) \<le> he_begin (hyperedges hg ! (he + 1))
     \<and> mset (pins hg' he) = filter_mset (\<lambda>p. hn_valid (hypernodes hg ! p)) (mset (pins hg he))
     \<and> mset removed = filter_mset (\<lambda>p. \<not> hn_valid (hypernodes hg ! p)) (mset (pins hg he))
     \<and> invalid_pins hg' he = sort_key (\<lambda>p. - (ci ! p)) (removed @ invalid_pins hg he)"
proof -
  from ok have a: "he + 1 < length (hyperedges hg)"
    "firstInvalidEntry (hyperedges hg ! he) \<le> he_begin (hyperedges hg ! (he + 1))"
    "he_begin (hyperedges hg ! (he + 1)) \<le> length (incidence_array hg)"
    "\<forall>p\<in>set (pins hg he). p < length (hypernodes hg)"
    "\<forall>p\<in>set (pins hg he @ invalid_pins hg he). p < length ci"
    by (simp_all add: range_ok_def)
  let ?e = "hyperedges hg ! he"
  let ?b = "he_begin ?e"
  let ?nb = "he_begin (hyperedges hg ! (he + 1))"
  let ?arr = "incidence_array hg"
  from create_contraction_hierarchy_at_result [OF a, of hashf seed]
  obtain kept removed where
    res: "create_contraction_hierarchy_at hashf seed ci he hg
       = Some (hg\<lparr>hyperedges := (hyperedges hg)
                      [he := ?e\<lparr>he_size := length kept,
                                he_hash := seed + sum_list (map hashf kept)\<rparr>],
                  incidence_array :=
                    take ?b ?arr @ kept
                    @ sort_key (\<lambda>p. - (ci ! p)) (removed @ invalid_pins hg he)
                    @ drop ?nb ?arr\<rparr>)"
    and k: "mset kept = filter_mset (\<lambda>p. hn_valid (hypernodes hg ! p)) (mset (pins hg he))"
    and r: "mset removed = filter_mset (\<lambda>p. \<not> hn_valid (hypernodes hg ! p)) (mset (pins hg he))"
    by blast
  define srt where "srt = sort_key (\<lambda>p. - (ci ! p)) (removed @ invalid_pins hg he)"
  define e' where "e' = ?e\<lparr>he_size := length kept, he_hash := seed + sum_list (map hashf kept)\<rparr>"
  define arr' where "arr' = take ?b ?arr @ kept @ srt @ drop ?nb ?arr"
  define hg' where "hg' = hg\<lparr>hyperedges := (hyperedges hg)[he := e'], incidence_array := arr'\<rparr>"
  have res': "create_contraction_hierarchy_at hashf seed ci he hg = Some hg'"
    using res by (simp add: hg'_def e'_def arr'_def srt_def)
  have b: "?b \<le> ?nb" "?nb \<le> length ?arr"
    using a(2,3) by (simp_all add: firstInvalidEntry_def)
  have "mset kept + mset removed = mset (pins hg he)" using k r by simp
  then have lkr: "length kept + length removed = length (pins hg he)"
    by (metis size_mset size_union)
  have lp: "length (pins hg he) = he_size ?e"
    using a(2,3) by (simp add: pins_def Let_def slice_def firstInvalidEntry_def)
  have li: "length (invalid_pins hg he) = ?nb - (?b + he_size ?e)"
    using a(2,3) by (simp add: invalid_pins_def slice_def firstInvalidEntry_def)
  have lmid: "length (kept @ srt) = ?nb - ?b"
    using lkr lp li a(2) by (simp add: srt_def firstInvalidEntry_def)
  have len: "length arr' = length ?arr"
    using lmid b by (simp add: arr'_def)
  have out: "arr' ! k = ?arr ! k" if "k < ?b \<or> ?nb \<le> k" for k
  proof (cases "k < ?b")
    case True
    then show ?thesis using b by (simp add: arr'_def nth_append)
  next
    case False
    with that have nk: "?nb \<le> k" by simp
    have "arr' = (take ?b ?arr @ kept @ srt) @ drop ?nb ?arr" by (simp add: arr'_def)
    moreover have "length (take ?b ?arr @ kept @ srt) = ?nb" using lmid b by simp
    ultimately have "arr' ! k = drop ?nb ?arr ! (k - ?nb)"
      using nk by (metis nth_append not_less)
    then show ?thesis
    proof (cases "k < length ?arr")
      case True
      then show ?thesis using \<open>arr' ! k = drop ?nb ?arr ! (k - ?nb)\<close> nk by simp
    next
      case False
      then have "\<not> k < length arr'" using len by simp
      have "arr' ! k = drop ?nb ?arr ! (k - ?nb)" by fact
      also have "\<dots> = ?arr ! (?nb + (k - ?nb))"
        using b(2) by (metis nth_drop)
      finally show ?thesis using nk by simp
    qed
  qed
  have p': "pins hg' he = kept"
    using a(1) b slice_append_mid [of "take ?b ?arr" kept "srt @ drop ?nb ?arr"]
    by (simp add: pins_def hg'_def e'_def arr'_def Let_def firstInvalidEntry_def)
  have nbk: "?b + length kept \<le> ?nb" using lmid b by simp
  have i': "invalid_pins hg' he = srt"
  proof -
    have "slice ((take ?b ?arr @ kept) @ srt @ drop ?nb ?arr)
            (length (take ?b ?arr @ kept)) (length (take ?b ?arr @ kept) + length srt) = srt"
      by (rule slice_append_mid)
    moreover have "length (take ?b ?arr @ kept) + length srt = ?nb"
      using lmid b by simp
    ultimately show ?thesis
      using a(1) b by (simp add: invalid_pins_def hg'_def e'_def arr'_def firstInvalidEntry_def)
  qed
  show ?thesis
    apply (rule exI [of _ hg'], rule exI [of _ removed])
    apply (intro conjI)
    subgoal by (rule res')
    subgoal by (simp add: hg'_def)
    subgoal by (simp add: hg'_def)
    subgoal by (simp add: hg'_def)
    subgoal by (simp add: hg'_def)
    subgoal using a(1) by (simp add: hg'_def e'_def nth_list_update)
    subgoal using len by (simp add: hg'_def)
    subgoal using out by (simp add: hg'_def)
    subgoal using a(1) nbk by (simp add: hg'_def e'_def firstInvalidEntry_def)
    subgoal using p' k by simp
    subgoal by (rule r)
    subgoal using i' by (simp add: srt_def)
    done
qed

text \<open>
  The steps for different hyperedges work on disjoint ranges, so the order in which they run
  does not matter: after the steps for a set of hyperedges, each of them is done and the
  others are as before.
\<close>

lemma begin_mono:
  assumes "wf_ranges n hg" "i \<le> j" "j \<le> num_hyperedges hg"
  shows "he_begin (hyperedges hg ! i) \<le> he_begin (hyperedges hg ! j)"
  using assms(2,3)
proof (induction j)
  case 0
  then show ?case by simp
next
  case (Suc j)
  show ?case
  proof (cases "i = Suc j")
    case True
    then show ?thesis by simp
  next
    case False
    with Suc.prems have ij: "i \<le> j" "j < num_hyperedges hg" by simp_all
    with Suc.IH have "he_begin (hyperedges hg ! i) \<le> he_begin (hyperedges hg ! j)" by simp
    moreover from assms(1) ij(2) have "range_ok n hg j" by (simp add: wf_ranges_def)
    then have "he_begin (hyperedges hg ! j) \<le> he_begin (hyperedges hg ! Suc j)"
      by (simp add: range_ok_def firstInvalidEntry_def)
    ultimately show ?thesis by simp
  qed
qed

lemma pins_same:
  assumes "hyperedges hg' ! he = hyperedges hg ! he"
    "he_begin (hyperedges hg' ! (he + 1)) = he_begin (hyperedges hg ! (he + 1))"
    "full_range hg' he = full_range hg he"
    "firstInvalidEntry (hyperedges hg ! he) \<le> he_begin (hyperedges hg ! (he + 1))"
  shows "pins hg' he = pins hg he" "invalid_pins hg' he = invalid_pins hg he"
proof -
  have "firstInvalidEntry (hyperedges hg' ! he) \<le> he_begin (hyperedges hg' ! (he + 1))"
    using assms by simp
  then have "pins hg' he = take (he_size (hyperedges hg' ! he)) (full_range hg' he)"
    by (rule pins_take_full_range)
  also have "\<dots> = take (he_size (hyperedges hg ! he)) (full_range hg he)"
    using assms by simp
  also have "\<dots> = pins hg he" using assms(4) by (rule pins_take_full_range [symmetric])
  finally show "pins hg' he = pins hg he" .
  show "invalid_pins hg' he = invalid_pins hg he"
    using assms by (simp add: invalid_pins_drop_full_range)
qed

lemma phase3_step:
  assumes wf: "wf_ranges (length ci) hg0"
    and inv: "phase3_inv ci hg0 P hg"
    and he: "he < num_hyperedges hg0" "he \<notin> P"
  shows "\<exists>hg'. create_contraction_hierarchy_at hashf seed ci he hg = Some hg'
           \<and> phase3_inv ci hg0 (insert he P) hg'"
proof -
  let ?Ez = "hyperedges hg0" and ?E = "hyperedges hg"
  from inv have fr: "hypernodes hg = hypernodes hg0" "num_hyperedges hg = num_hyperedges hg0"
    "length ?E = length ?Ez" "\<And>k. he_begin (?E ! k) = he_begin (?Ez ! k)"
    "length (incidence_array hg) = length (incidence_array hg0)"
    and unp: "\<And>k. k < num_hyperedges hg0 \<Longrightarrow> k \<notin> P \<Longrightarrow> same_edge hg0 hg k"
    and don: "\<And>k. k < num_hyperedges hg0 \<Longrightarrow> k \<in> P \<Longrightarrow> edge_done ci hg0 hg k"
    by (simp_all add: phase3_inv_def same_frame_def)
  from wf he(1) have ok0: "range_ok (length ci) hg0 he" by (simp add: wf_ranges_def)
  then have a0: "he + 1 < length ?Ez"
    "firstInvalidEntry (?Ez ! he) \<le> he_begin (?Ez ! (he + 1))"
    "he_begin (?Ez ! (he + 1)) \<le> length (incidence_array hg0)"
    "\<forall>p\<in>set (pins hg0 he). p < length (hypernodes hg0)"
    "\<forall>p\<in>set (pins hg0 he @ invalid_pins hg0 he). p < length ci"
    by (simp_all add: range_ok_def)
  from unp [OF he] have se: "?E ! he = ?Ez ! he" "full_range hg he = full_range hg0 he"
    by (simp_all add: same_edge_def)
  have ps: "pins hg he = pins hg0 he" "invalid_pins hg he = invalid_pins hg0 he"
    using se fr(4) a0(2) by (auto intro!: pins_same)
  have ok: "range_ok (length ci) hg he"
    using a0 se fr ps by (simp add: range_ok_def)
  from create_contraction_hierarchy_at_frame [OF ok, of hashf seed]
  obtain hg' removed where
    res: "create_contraction_hierarchy_at hashf seed ci he hg = Some hg'"
    and f': "hypernodes hg' = hypernodes hg" "num_hyperedges hg' = num_hyperedges hg"
      "length (hyperedges hg') = length ?E"
      "\<And>k. k \<noteq> he \<Longrightarrow> hyperedges hg' ! k = ?E ! k"
      "\<And>k. he_begin (hyperedges hg' ! k) = he_begin (?E ! k)"
      "length (incidence_array hg') = length (incidence_array hg)"
    and out: "\<And>k. k < he_begin (?E ! he) \<or> he_begin (?E ! (he + 1)) \<le> k
            \<Longrightarrow> incidence_array hg' ! k = incidence_array hg ! k"
    and fi: "firstInvalidEntry (hyperedges hg' ! he) \<le> he_begin (?E ! (he + 1))"
    and k: "mset (pins hg' he) = filter_mset (\<lambda>p. hn_valid (hypernodes hg ! p)) (mset (pins hg he))"
    and r: "mset removed = filter_mset (\<lambda>p. \<not> hn_valid (hypernodes hg ! p)) (mset (pins hg he))"
    and i: "invalid_pins hg' he = sort_key (\<lambda>p. - (ci ! p)) (removed @ invalid_pins hg he)"
    by blast
  have frame: "same_frame hg0 hg'"
    using fr f' by (simp add: same_frame_def)
  have full: "full_range hg' k = full_range hg k" if kn: "k < num_hyperedges hg0" and kh: "k \<noteq> he" for k
  proof -
    from wf kn have okk: "range_ok (length ci) hg0 k" by (simp add: wf_ranges_def)
    then have nbk: "he_begin (?Ez ! (k + 1)) \<le> length (incidence_array hg0)"
      by (simp add: range_ok_def)
    have agree: "incidence_array hg' ! j = incidence_array hg ! j"
      if j: "he_begin (?E ! k) \<le> j \<and> j < he_begin (?E ! (k + 1))" for j
    proof (cases "k < he")
      case True
      then have "he_begin (?Ez ! (k + 1)) \<le> he_begin (?Ez ! he)"
        using he(1) by (intro begin_mono [OF wf]) simp_all
      with j fr(4) have "j < he_begin (?E ! he)" by simp
      then show ?thesis by (intro out) simp
    next
      case False
      with kh have "he + 1 \<le> k" by simp
      then have "he_begin (?Ez ! (he + 1)) \<le> he_begin (?Ez ! k)"
        using kn by (intro begin_mono [OF wf]) simp_all
      with j fr(4) have "he_begin (?E ! (he + 1)) \<le> j" by simp
      then show ?thesis by (intro out) simp
    qed
    have "slice (incidence_array hg') (he_begin (?E ! k)) (he_begin (?E ! (k + 1)))
          = slice (incidence_array hg) (he_begin (?E ! k)) (he_begin (?E ! (k + 1)))"
      using f'(6) agree nbk fr(4,5) by (intro slice_cong) simp_all
    then show ?thesis using f'(5) by (simp add: full_range_def)
  qed
  have unp': "same_edge hg0 hg' k" if "k < num_hyperedges hg0" "k \<notin> insert he P" for k
  proof -
    from that have kh: "k \<noteq> he" and kp: "k \<notin> P" by simp_all
    from unp [OF that(1) kp] full [OF that(1) kh] f'(4) [OF kh]
    show ?thesis by (simp add: same_edge_def)
  qed
  have don': "edge_done ci hg0 hg' k" if "k < num_hyperedges hg0" "k \<in> insert he P" for k
  proof (cases "k = he")
    case True
    have "firstInvalidEntry (hyperedges hg' ! he) \<le> he_begin (hyperedges hg' ! (he + 1))"
      using fi f'(5) by simp
    moreover have "mset (pins hg' he)
        = filter_mset (\<lambda>p. hn_valid (hypernodes hg0 ! p)) (mset (pins hg0 he))"
      using k ps fr(1) by simp
    moreover have "mset removed
        = filter_mset (\<lambda>p. \<not> hn_valid (hypernodes hg0 ! p)) (mset (pins hg0 he))"
      using r ps fr(1) by simp
    moreover have "invalid_pins hg' he = sort_key (\<lambda>p. - (ci ! p)) (removed @ invalid_pins hg0 he)"
      using i ps by simp
    ultimately show ?thesis unfolding True edge_done_def by blast
  next
    case False
    with that have kp: "k \<in> P" by simp
    from don [OF that(1) kp] have d: "edge_done ci hg0 hg k" .
    then have b: "firstInvalidEntry (?E ! k) \<le> he_begin (?E ! (k + 1))"
      by (simp add: edge_done_def)
    have same: "pins hg' k = pins hg k" "invalid_pins hg' k = invalid_pins hg k"
      using f'(4) [OF False] f'(5) full [OF that(1) False] b by (auto intro!: pins_same)
    show ?thesis
      using d same f'(4) [OF False] f'(5) by (simp add: edge_done_def)
  qed
  from res frame unp' don' show ?thesis
    unfolding phase3_inv_def by blast
qed

lemma phase3_run:
  assumes wf: "wf_ranges (length ci) hg0"
    and "phase3_inv ci hg0 P hg"
    and "distinct hes" "set hes \<inter> P = {}" "\<forall>he\<in>set hes. he < num_hyperedges hg0"
  shows "\<exists>hg'. foldM (create_contraction_hierarchy_at hashf seed ci) hes hg = Some hg'
           \<and> phase3_inv ci hg0 (P \<union> set hes) hg'"
  using assms(2-)
proof (induction hes arbitrary: P hg)
  case Nil
  then show ?case by simp
next
  case (Cons he hes)
  from Cons.prems have "he < num_hyperedges hg0" "he \<notin> P" by auto
  from phase3_step [OF wf Cons.prems(1) this, of hashf seed]
  obtain hg1 where 1: "create_contraction_hierarchy_at hashf seed ci he hg = Some hg1"
    and i1: "phase3_inv ci hg0 (insert he P) hg1" by blast
  from Cons.prems have "distinct hes" "set hes \<inter> insert he P = {}"
    "\<forall>he\<in>set hes. he < num_hyperedges hg0" by auto
  from Cons.IH [OF i1 this]
  obtain hg' where 2: "foldM (create_contraction_hierarchy_at hashf seed ci) hes hg1 = Some hg'"
    and i2: "phase3_inv ci hg0 (insert he P \<union> set hes) hg'" by blast
  have "P \<union> set (he # hes) = insert he P \<union> set hes" by auto
  with 1 2 i2 show ?case by simp
qed

lemma phase3_inv_start: "phase3_inv ci hg0 {} hg0"
  by (simp add: phase3_inv_def same_frame_def same_edge_def)

text \<open>The tasks of the pool cover every index once, in whatever order they run.\<close>

lemma concat_uniform_ranges:
  "concat (map (\<lambda>i. [i * step..<(i + 1) * step]) [0..<k]) = [0..<k * step]"
proof (induction k)
  case 0
  show ?case by simp
next
  case (Suc k)
  have "[0..<k * step + step] = [0..<k * step] @ [k * step..<k * step + step]"
    by (rule upt_add_eq_append) simp
  with Suc show ?case by (simp add: add.commute)
qed

lemma range_split_concat:
  assumes "range_split num_threads n = Some ts"
  shows "concat (map (\<lambda>r. [fst r..<snd r]) ts) = [0..<n]"
proof (cases "n div num_threads \<ge> 1 \<and> num_threads \<noteq> 1")
  case False
  with assms show ?thesis by (auto simp: range_split_def Let_def split: if_splits)
next
  case True
  define step where "step = n div num_threads"
  from assms have T: "num_threads > 0" by (auto simp: range_split_def split: if_splits)
  define k where "k = num_threads - 1"
  have nt: "num_threads = Suc k" using T by (simp add: k_def)
  have le: "k * step \<le> n"
  proof -
    have "k * step \<le> num_threads * step" by (simp add: nt)
    also have "\<dots> \<le> n" by (simp add: step_def)
    finally show ?thesis .
  qed
  from assms True T have "ts = map (\<lambda>i. (i * step, if i = num_threads - 1 then n else (i + 1) * step)) [0..<num_threads]"
    by (auto simp: range_split_def Let_def step_def)
  then have ts: "ts = map (\<lambda>i. (i * step, if i = k then n else (i + 1) * step)) [0..<Suc k]"
    by (simp only: nt diff_Suc_1)
  have "map (\<lambda>r. [fst r..<snd r]) ts
        = map (\<lambda>i. [i * step..<(i + 1) * step]) [0..<k] @ [[k * step..<n]]"
    by (simp add: ts)
  then have "concat (map (\<lambda>r. [fst r..<snd r]) ts) = [0..<k * step] @ [k * step..<n]"
    using concat_uniform_ranges [of step k] by simp
  also have "\<dots> = [0..<n]"
    using le upt_add_eq_append [of 0 "k * step" "n - k * step"] by simp
  finally show ?thesis .
qed

lemma schedule_indices:
  assumes "range_split num_threads n = Some ts" "mset sched = mset ts"
  shows "mset (concat (map (\<lambda>r. [fst r..<snd r]) sched)) = mset [0..<n]"
proof -
  have "mset (concat (map (\<lambda>r. [fst r..<snd r]) sched))
        = sum_mset (image_mset (\<lambda>r. mset [fst r..<snd r]) (mset sched))"
    by (simp only: mset_concat sum_mset_sum_list [symmetric] mset_map map_map comp_def)
  also have "\<dots> = sum_mset (image_mset (\<lambda>r. mset [fst r..<snd r]) (mset ts))"
    using assms(2) by simp
  also have "\<dots> = mset (concat (map (\<lambda>r. [fst r..<snd r]) ts))"
    by (simp only: mset_concat sum_mset_sum_list [symmetric] mset_map map_map comp_def)
  finally show ?thesis using range_split_concat [OF assms(1)] by simp
qed

lemma phase3_all_edges:
  assumes wf: "wf_ranges (length ci) hg"
    and threads: "0 < num_threads"
    and order: "\<forall>ts. mset (pool_order ts) = mset ts"
  shows "\<exists>hg'. phase3 hashf seed ci num_threads pool_order hg = Some hg'
           \<and> phase3_inv ci hg {..<num_hyperedges hg} hg'"
proof -
  from threads have "\<exists>tasks. range_split num_threads (num_hyperedges hg) = Some tasks"
    by (simp add: range_split_def Let_def)
  then obtain tasks where tasks: "range_split num_threads (num_hyperedges hg) = Some tasks" ..
  define hes where "hes = concat (map (\<lambda>r. [fst r..<snd r]) (pool_order tasks))"
  have m: "mset hes = mset [0..<num_hyperedges hg]"
    unfolding hes_def using tasks order by (intro schedule_indices) simp_all
  then have d: "distinct hes" by (metis distinct_upt mset_eq_imp_distinct_iff)
  from m have s: "set hes = {..<num_hyperedges hg}"
    by (metis atLeast_upt mset_eq_setD)
  have run: "phase3 hashf seed ci num_threads pool_order hg
             = foldM (create_contraction_hierarchy_at hashf seed ci) hes hg"
    unfolding phase3_def tasks create_contraction_hierarchy_def [abs_def] hes_def
    by (simp add: foldM_concat)
  from phase3_run [OF wf phase3_inv_start d, of hashf seed] s
  obtain hg' where "foldM (create_contraction_hierarchy_at hashf seed ci) hes hg = Some hg'"
    "phase3_inv ci hg ({} \<union> set hes) hg'"
    by auto
  with run s show ?thesis by simp
qed

lemma phase3_edges:
  assumes wf: "wf_ranges (length ci) hg"
    and threads: "0 < num_threads"
    and order: "\<forall>ts. mset (pool_order ts) = mset ts"
  shows "\<exists>hg'. phase3 hashf seed ci num_threads pool_order hg = Some hg'
           \<and> hypernodes hg' = hypernodes hg
           \<and> (\<forall>k. he_begin (hyperedges hg' ! k) = he_begin (hyperedges hg ! k))
           \<and> (\<forall>he<num_hyperedges hg. edge_done ci hg hg' he)"
  using phase3_all_edges [OF assms, of hashf seed]
  by (auto simp: phase3_inv_def same_frame_def)

lemma wf_ranges_ex_hg3: "wf_ranges 4 ex_hg3"
  by (simp add: wf_ranges_def range_ok_def ex_hg3_def pins_def invalid_pins_def slice_def
      firstInvalidEntry_def Let_def less_Suc_eq numeral_2_eq_2)

text \<open>
  Claim C4, as amended.  Phase 3, for any number of workers and any order in which the pool
  runs the tasks, leaves in the active prefix of every hyperedge exactly the previously
  active pins whose hypernodes are enabled, each as often as before, and every pin of the
  new prefix is enabled; \<^verbatim>\<open>firstEntry\<close> does not move and the prefix ends before the next
  hyperedge begins.  The order of the remaining pins may change: a removal puts the last
  active pin into the place of the removed one.
\<close>

theorem compaction_keeps_enabled_pins:
  assumes wf: "wf_ranges (length ci) hg"
    and threads: "0 < num_threads"
    and order: "\<forall>ts. mset (pool_order ts) = mset ts"
  shows "\<exists>hg'. phase3 hashf seed ci num_threads pool_order hg = Some hg'
           \<and> (\<forall>he<num_hyperedges hg.
                 he_begin (hyperedges hg' ! he) = he_begin (hyperedges hg ! he)
               \<and> firstInvalidEntry (hyperedges hg' ! he) \<le> he_begin (hyperedges hg' ! (he + 1))
               \<and> mset (pins hg' he)
                   = filter_mset (\<lambda>p. hn_valid (hypernodes hg ! p)) (mset (pins hg he))
               \<and> (\<forall>p\<in>set (pins hg' he). hn_valid (hypernodes hg' ! p)))"
proof -
  from phase3_edges [OF assms, of hashf seed]
  obtain hg' where r: "phase3 hashf seed ci num_threads pool_order hg = Some hg'"
    and n: "hypernodes hg' = hypernodes hg"
    and b: "\<forall>k. he_begin (hyperedges hg' ! k) = he_begin (hyperedges hg ! k)"
    and e: "\<forall>he<num_hyperedges hg. edge_done ci hg hg' he"
    by blast
  have "he_begin (hyperedges hg' ! he) = he_begin (hyperedges hg ! he)
      \<and> firstInvalidEntry (hyperedges hg' ! he) \<le> he_begin (hyperedges hg' ! (he + 1))
      \<and> mset (pins hg' he)
          = filter_mset (\<lambda>p. hn_valid (hypernodes hg ! p)) (mset (pins hg he))
      \<and> (\<forall>p\<in>set (pins hg' he). hn_valid (hypernodes hg' ! p))"
    if "he < num_hyperedges hg" for he
  proof -
    from e that have d: "edge_done ci hg hg' he" by simp
    then have f: "firstInvalidEntry (hyperedges hg' ! he) \<le> he_begin (hyperedges hg' ! (he + 1))"
      and m: "mset (pins hg' he)
               = filter_mset (\<lambda>p. hn_valid (hypernodes hg ! p)) (mset (pins hg he))"
      by (simp_all add: edge_done_def)
    have "\<forall>p\<in>set (pins hg' he). hn_valid (hypernodes hg' ! p)"
    proof
      fix p assume "p \<in> set (pins hg' he)"
      then have "p \<in># mset (pins hg' he)" by simp
      then show "hn_valid (hypernodes hg' ! p)" unfolding m n by simp
    qed
    with b f m show ?thesis by simp
  qed
  with r show ?thesis by blast
qed

theorem compaction_keeps_enabled_pins_witness:
  "wf_ranges (length [- 1, 2, 0, 1 :: int]) ex_hg3
   \<and> (\<exists>hg'. phase3 word_of_nat 0 [- 1, 2, 0, 1] 2 rev ex_hg3 = Some hg'
           \<and> mset (pins ex_hg3 0) = {#0, 1, 2, 3#} \<and> mset (pins hg' 0) = {#0#}
           \<and> mset (pins ex_hg3 1) = {#3, 0, 1#} \<and> mset (pins hg' 1) = {#0#}
           \<and> list_all (\<lambda>p. hn_valid (hypernodes hg' ! p)) (pins hg' 0 @ pins hg' 1))"
proof -
  have l: "length [- 1, 2, 0, 1 :: int] = 4" by simp
  have wf: "wf_ranges (length [- 1, 2, 0, 1 :: int]) ex_hg3"
    unfolding l by (rule wf_ranges_ex_hg3)
  have o: "\<forall>ts :: (nat \<times> nat) list. mset (rev ts) = mset ts" by simp
  have p: "pins ex_hg3 0 = [0, 1, 2, 3]" "pins ex_hg3 1 = [3, 0, 1]"
    "num_hyperedges ex_hg3 = 2"
    "filter (\<lambda>p. hn_valid (hypernodes ex_hg3 ! p)) [0, 1, 2, 3] = [0]"
    "filter (\<lambda>p. hn_valid (hypernodes ex_hg3 ! p)) [3, 0, 1] = [0]"
    by (simp_all add: ex_hg3_def pins_def slice_def firstInvalidEntry_def)
  from compaction_keeps_enabled_pins [OF wf _ o, of 2 word_of_nat 0]
  obtain hg' where r: "phase3 word_of_nat 0 [- 1, 2, 0, 1] 2 rev ex_hg3 = Some hg'"
    and a: "\<forall>he<num_hyperedges ex_hg3.
              mset (pins hg' he)
                  = filter_mset (\<lambda>p. hn_valid (hypernodes ex_hg3 ! p)) (mset (pins ex_hg3 he))
              \<and> (\<forall>p\<in>set (pins hg' he). hn_valid (hypernodes hg' ! p))"
    by auto
  have lt: "0 < num_hyperedges ex_hg3" "1 < num_hyperedges ex_hg3"
    by (simp_all add: p(3))
  from a lt(1) have a0: "mset (pins hg' 0)
        = mset (filter (\<lambda>p. hn_valid (hypernodes ex_hg3 ! p)) (pins ex_hg3 0))"
    "\<forall>p\<in>set (pins hg' 0). hn_valid (hypernodes hg' ! p)"
    by simp_all
  from a lt(2) have a1: "mset (pins hg' 1)
        = mset (filter (\<lambda>p. hn_valid (hypernodes ex_hg3 ! p)) (pins ex_hg3 1))"
    "\<forall>p\<in>set (pins hg' 1). hn_valid (hypernodes hg' ! p)"
    by simp_all
  from a0(1) a1(1) have m: "mset (pins hg' 0) = {#0#}" "mset (pins hg' 1) = {#0#}"
    by (simp_all only: p mset.simps)
  from a0(2) a1(2) have "list_all (\<lambda>p. hn_valid (hypernodes hg' ! p)) (pins hg' 0 @ pins hg' 1)"
    by (auto simp: list_all_iff)
  with wf r m p show ?thesis by simp
qed

text \<open>
  The claim as stated fails: with the active pins 0, 1, 2 and hypernode 0 disabled, the
  pins that remain are 1, 2 in this order, and phase 3 leaves 2, 1.
\<close>

theorem compaction_order_counterexample:
  "map_option (\<lambda>hg'. pins hg' 0) (phase3 word_of_nat 0 [0, - 1, - 1] 1 id ex_hg) = Some [2, 1]
   \<and> filter (\<lambda>p. hn_valid (hypernodes ex_hg ! p)) (pins ex_hg 0) = [1, 2]"
  by (simp add: phase3_def range_split_def create_contraction_hierarchy_def
      create_contraction_hierarchy_at_def ex_hg_def compact_pins.simps nth_opt_def
      swap_at_def sort_remainder_def slice_def pins_def firstInvalidEntry_def Let_def)

lemma distinct_mset_subseteq:
  assumes "distinct ys" "mset xs \<subseteq># mset ys"
  shows "distinct xs"
proof -
  from assms(2) obtain C where "mset ys = mset xs + C"
    by (auto simp: mset_subset_eq_exists_conv)
  moreover obtain zs where "mset zs = C" using ex_mset by blast
  ultimately have "mset ys = mset (xs @ zs)" by simp
  with assms(1) have "distinct (xs @ zs)" by (metis mset_eq_imp_distinct_iff)
  then show ?thesis by simp
qed

lemma table_inj:
  assumes hit: "\<forall>i<length history. ci ! memento_v (history ! i) = int i"
  shows "inj_on (\<lambda>p. ci ! p) (memento_v ` set history)"
proof (rule inj_onI)
  fix p q assume "p \<in> memento_v ` set history" "q \<in> memento_v ` set history"
    and eq: "ci ! p = ci ! q"
  then obtain i j where i: "i < length history" "p = memento_v (history ! i)"
    and j: "j < length history" "q = memento_v (history ! j)"
    by (auto simp: in_set_conv_nth)
  with hit eq have "int i = int j" by simp
  with i j show "p = q" by simp
qed

text \<open>
  Claim C5, as amended.  After phase 3, run with the table of phase 2, for every hyperedge
  the contraction indices of the pins in \<open>[firstInvalidEntry, nextEdge.firstEntry)\<close>
  never increase from front to back.  They are strictly decreasing when, besides the
  history naming no hypernode twice, the pins of the reserved range are pairwise distinct
  and every pin that ends in the suffix (a disabled active pin, or a pin already behind
  \<open>firstInvalidEntry\<close>) is absorbed by a memento of the history.
\<close>

theorem phase3_suffix_order:
  assumes dist: "distinct (map memento_v history)"
    and bound: "\<forall>m\<in>set history. memento_v m < num_hypernodes hg"
    and small: "length history \<le> 2 ^ 31"
    and threads: "0 < num_threads"
    and order: "\<forall>ts. mset (pool_order ts) = mset ts"
    and wf: "wf_ranges (num_hypernodes hg) hg"
  shows "\<exists>ci hg'. phase2 history (num_hypernodes hg) num_threads pool_order = Some ci
           \<and> phase3 hashf seed ci num_threads pool_order hg = Some hg'
           \<and> (\<forall>he<num_hyperedges hg.
                 sorted_wrt (\<lambda>p q. ci ! p \<ge> ci ! q) (invalid_pins hg' he)
               \<and> (distinct (pins hg he @ invalid_pins hg he)
                    \<and> (\<forall>p\<in>set (pins hg he). \<not> hn_valid (hypernodes hg ! p)
                           \<longrightarrow> p \<in> memento_v ` set history)
                    \<and> set (invalid_pins hg he) \<subseteq> memento_v ` set history
                  \<longrightarrow> sorted_wrt (\<lambda>p q. ci ! p > ci ! q) (invalid_pins hg' he)))"
proof -
  from phase2_table [OF dist bound small threads order]
  obtain ci where ci: "phase2 history (num_hypernodes hg) num_threads pool_order = Some ci"
    and len: "length ci = num_hypernodes hg"
    and hit: "\<forall>i<length history. ci ! memento_v (history ! i) = int i"
    by blast
  from wf len have wf': "wf_ranges (length ci) hg" by simp
  let ?f = "\<lambda>p. - (ci ! p)"
  from phase3_edges [OF wf' threads order, of hashf seed]
  obtain hg' where r: "phase3 hashf seed ci num_threads pool_order hg = Some hg'"
    and e: "\<forall>he<num_hyperedges hg. edge_done ci hg hg' he"
    by blast
  have "sorted_wrt (\<lambda>p q. ci ! p \<ge> ci ! q) (invalid_pins hg' he)
      \<and> (distinct (pins hg he @ invalid_pins hg he)
           \<and> (\<forall>p\<in>set (pins hg he). \<not> hn_valid (hypernodes hg ! p)
                  \<longrightarrow> p \<in> memento_v ` set history)
           \<and> set (invalid_pins hg he) \<subseteq> memento_v ` set history
         \<longrightarrow> sorted_wrt (\<lambda>p q. ci ! p > ci ! q) (invalid_pins hg' he))"
    if he: "he < num_hyperedges hg" for he
  proof -
    from e he have "edge_done ci hg hg' he" by simp
    then obtain removed where
      rem: "mset removed = filter_mset (\<lambda>p. \<not> hn_valid (hypernodes hg ! p)) (mset (pins hg he))"
      and inv: "invalid_pins hg' he = sort_key ?f (removed @ invalid_pins hg he)"
      unfolding edge_done_def by blast
    let ?xs = "removed @ invalid_pins hg he"
    have srt: "sorted (map ?f (invalid_pins hg' he))"
      unfolding inv by (rule sorted_sort_key)
    then have weak: "sorted_wrt (\<lambda>p q. ci ! p \<ge> ci ! q) (invalid_pins hg' he)"
      by (simp add: sorted_map)
    have strict: "sorted_wrt (\<lambda>p q. ci ! p > ci ! q) (invalid_pins hg' he)"
      if d: "distinct (pins hg he @ invalid_pins hg he)"
        and cov1: "\<forall>p\<in>set (pins hg he). \<not> hn_valid (hypernodes hg ! p)
                         \<longrightarrow> p \<in> memento_v ` set history"
        and cov2: "set (invalid_pins hg he) \<subseteq> memento_v ` set history"
    proof -
      have sub: "mset removed \<subseteq># mset (pins hg he)" unfolding rem by simp
      have "mset ?xs \<subseteq># mset (pins hg he @ invalid_pins hg he)"
        using sub by (simp add: subset_mset.add_mono)
      with d have dx: "distinct ?xs" by (rule distinct_mset_subseteq)
      have "set removed \<subseteq> {p \<in> set (pins hg he). \<not> hn_valid (hypernodes hg ! p)}"
      proof
        fix p assume "p \<in> set removed"
        then have "p \<in># mset removed" by simp
        then show "p \<in> {p \<in> set (pins hg he). \<not> hn_valid (hypernodes hg ! p)}"
          unfolding rem by simp
      qed
      with cov1 cov2 have "set ?xs \<subseteq> memento_v ` set history" by auto
      with table_inj [OF hit] have "inj_on (\<lambda>p. ci ! p) (set ?xs)"
        by (rule inj_on_subset)
      then have "inj_on ?f (set ?xs)" by (simp add: inj_on_def)
      with dx have "distinct (map ?f ?xs)" by (simp only: distinct_map simp_thms)
      moreover have "mset (map ?f (invalid_pins hg' he)) = mset (map ?f ?xs)"
        unfolding inv by simp
      ultimately have "distinct (map ?f (invalid_pins hg' he))"
        by (metis mset_eq_imp_distinct_iff)
      with srt have "sorted_wrt (<) (map ?f (invalid_pins hg' he))"
        by (simp add: strict_sorted_iff)
      then show ?thesis by (simp add: sorted_wrt_map)
    qed
    from weak strict show ?thesis by blast
  qed
  with ci r show ?thesis by blast
qed

lemma replicate4: "replicate 4 x = [x, x, x, x]"
  by (simp add: numeral_eq_Suc)

theorem phase3_suffix_order_witness:
  "distinct (map memento_v ex_history)
   \<and> list_all (\<lambda>m. memento_v m < num_hypernodes ex_hg3) ex_history
   \<and> wf_ranges (num_hypernodes ex_hg3) ex_hg3
   \<and> (\<exists>ci hg'. phase2 ex_history (num_hypernodes ex_hg3) 2 rev = Some ci
           \<and> phase3 word_of_nat 0 ci 2 rev ex_hg3 = Some hg'
           \<and> sorted_wrt (\<lambda>p q. ci ! p > ci ! q) (invalid_pins hg' 0)
           \<and> sorted_wrt (\<lambda>p q. ci ! p > ci ! q) (invalid_pins hg' 1))"
proof -
  have h: "distinct (map memento_v ex_history)"
    "\<forall>m\<in>set ex_history. memento_v m < num_hypernodes ex_hg3"
    "length ex_history \<le> 2 ^ 31" "0 < (2::nat)"
    "\<forall>ts :: (nat \<times> nat) list. mset (rev ts) = mset ts"
    by (simp_all add: ex_history_def ex_hg3_def)
  have wf: "wf_ranges (num_hypernodes ex_hg3) ex_hg3"
    using wf_ranges_ex_hg3 by (simp add: ex_hg3_def)
  have n: "num_hyperedges ex_hg3 = 2" by (simp add: ex_hg3_def)
  have extra: "distinct (pins ex_hg3 he @ invalid_pins ex_hg3 he)
      \<and> (\<forall>p\<in>set (pins ex_hg3 he). \<not> hn_valid (hypernodes ex_hg3 ! p)
             \<longrightarrow> p \<in> memento_v ` set ex_history)
      \<and> set (invalid_pins ex_hg3 he) \<subseteq> memento_v ` set ex_history"
    if "he = 0 \<or> he = 1" for he
    using that
    by (auto simp: ex_history_def ex_hg3_def pins_def invalid_pins_def slice_def
        firstInvalidEntry_def Let_def)
  have la: "list_all (\<lambda>m. memento_v m < num_hypernodes ex_hg3) ex_history"
    using h(2) by (simp add: list_all_iff)
  from phase3_suffix_order [OF h wf, of word_of_nat 0]
  obtain ci hg' where r: "phase2 ex_history (num_hypernodes ex_hg3) 2 rev = Some ci"
    "phase3 word_of_nat 0 ci 2 rev ex_hg3 = Some hg'"
    and a: "\<forall>he<num_hyperedges ex_hg3.
               distinct (pins ex_hg3 he @ invalid_pins ex_hg3 he)
                \<and> (\<forall>p\<in>set (pins ex_hg3 he). \<not> hn_valid (hypernodes ex_hg3 ! p)
                       \<longrightarrow> p \<in> memento_v ` set ex_history)
                \<and> set (invalid_pins ex_hg3 he) \<subseteq> memento_v ` set ex_history
              \<longrightarrow> sorted_wrt (\<lambda>p q. ci ! p > ci ! q) (invalid_pins hg' he)"
    by blast
  have lt: "0 < num_hyperedges ex_hg3" "1 < num_hyperedges ex_hg3"
    by (simp_all add: n)
  from a lt(1) extra [of 0]
  have s0: "sorted_wrt (\<lambda>p q. ci ! p > ci ! q) (invalid_pins hg' 0)" by blast
  from a lt(2) extra [of 1]
  have s1: "sorted_wrt (\<lambda>p q. ci ! p > ci ! q) (invalid_pins hg' 1)" by blast
  note s0 s1
  with h(1) la wf r show ?thesis by blast
qed

text \<open>
  The claim as stated fails: the history below names no hypernode twice, and the suffix of
  the hyperedge ends with two pins whose contraction index is \<open>-1\<close>.
\<close>

theorem phase3_suffix_order_counterexample:
  "distinct (map memento_v [\<lparr>memento_u = 0, memento_v = 1\<rparr>])
   \<and> phase2 [\<lparr>memento_u = 0, memento_v = 1\<rparr>] 4 1 id = Some [- 1, 0, - 1, - 1]
   \<and> map_option (\<lambda>hg'. map (\<lambda>p. [- 1, 0, - 1, - 1 :: int] ! p) (invalid_pins hg' 0))
        (phase3 word_of_nat 0 [- 1, 0, - 1, - 1] 1 id ex_hg2)
       = Some [0, - 1, - 1]
   \<and> \<not> sorted_wrt (>) [0, - 1, - 1 :: int]"
  by (simp add: phase2_def phase3_def range_split_def construct_contraction_index_def
      contraction_index_at_def nth_opt_def upd_opt_def to_int32_small replicate4
      create_contraction_hierarchy_def
      create_contraction_hierarchy_at_def ex_hg2_def compact_pins.simps
      swap_at_def sort_remainder_def slice_def invalid_pins_def firstInvalidEntry_def Let_def)

subsection \<open>Extraction\<close>

lemma scenario_A_extracted:
  "extractCommunityInducedSectionHypergraph setupInternalStructure word_of_nat 0 scenario_hg 0 True
   = Some scenario_A"
  by code_simp

lemma scenario_B_extracted:
  "extractCommunityInducedSectionHypergraph setupInternalStructure word_of_nat 0 scenario_hg 1 True
   = Some scenario_B"
  by code_simp

text \<open>
  Claim C2.  The ranges issued for one hyperedge to the communities it touches should be
  pairwise disjoint, ordered by community id, and cover exactly \<open>[0, activePinCount)\<close>.
  Extraction adds up the weights of the pins, not their number: for the hyperedge
  \<open>e0 = {1, 0}\<close> with a hypernode of weight 2, community 0 is given \<open>[0, 2)\<close> and
  community 1 is given \<open>[2, 3)\<close>, although the hyperedge has the two active pins
  \<open>[0, 2)\<close>.
\<close>

theorem extraction_ranges_failing_input:
  "map_option subhypergraph_to_hypergraph_he
     (extractCommunityInducedSectionHypergraph setupInternalStructure word_of_nat 0
        weighted_hg 0 True)
     = Some [\<lparr>original_he = 0, incidence_array_start = 0, incidence_array_end = 2\<rparr>]
   \<and> map_option subhypergraph_to_hypergraph_he
     (extractCommunityInducedSectionHypergraph setupInternalStructure word_of_nat 0
        weighted_hg 1 True)
     = Some [\<lparr>original_he = 0, incidence_array_start = 2, incidence_array_end = 3\<rparr>,
             \<lparr>original_he = 1, incidence_array_start = 0, incidence_array_end = 2\<rparr>]
   \<and> he_size (hyperedges weighted_hg ! 0) = 2
   \<and> pins weighted_hg 0 = [1, 0]"
  by code_simp

lemma foldM_skip:
  assumes "\<forall>x\<in>set xs. f x s = Some s"
  shows "foldM f xs s = Some s"
  using assms by (induction xs) simp_all

lemma visit_hypernode_other:
  assumes "hn < length (hypernodes hg)" "hn < length (communities hg)"
    "communities hg ! hn \<noteq> community"
  shows "visit_hypernode hg community hn st = Some st"
  using assms by (simp add: visit_hypernode_def nth_opt_def communityID_def)

lemma ucast_up_down: "(ucast (ucast (x :: 32 word) :: 64 word) :: 32 word) = x"
  by transfer simp

lemma phase0_community_empty:
  "phase0_community (new_CommunitySubhypergraph community) hg = hg"
  by (simp add: phase0_community_def new_CommunitySubhypergraph_def empty_Hypergraph_def
      ucast_up_down)

lemma phase1_task_empty:
  "phase1_task (new_CommunitySubhypergraph community) hg = Some hg"
  by (simp add: phase1_task_def new_CommunitySubhypergraph_def empty_Hypergraph_def)

lemma phase0_drop_empty:
  "phase0 (cs1 @ new_CommunitySubhypergraph community # cs2) hg = phase0 (cs1 @ cs2) hg"
  by (simp add: phase0_def phase0_community_empty)

lemma phase1_drop_empty:
  "foldM phase1_task (cs1 @ new_CommunitySubhypergraph community # cs2) hg
   = foldM phase1_task (cs1 @ cs2) hg"
  by (simp add: foldM_append phase1_task_empty split: option.splits)

text \<open>
  Claim C7.  When no hypernode of the hypergraph belongs to the target community,
  extraction returns the freshly constructed \<^verbatim>\<open>CommunitySubhypergraph\<close>: its
  sub-hypergraph is the empty hypergraph, with no hypernodes, hyperedges or pins, and its
  two mappings are empty.  Merge treats such a result as a no-op: it adds nothing to the
  counters of the pre-phase, its task of phase 1 leaves the hypergraph as it is, and the
  whole merge yields the same with it and without it.
\<close>

theorem empty_community_is_noop:
  assumes "num_hypernodes hg \<le> length (hypernodes hg)"
    and "num_hypernodes hg \<le> length (communities hg)"
    and "\<forall>hn<num_hypernodes hg. communities hg ! hn \<noteq> community"
  shows "extractCommunityInducedSectionHypergraph setup_structure hashf seed hg community respect_order
           = Some (new_CommunitySubhypergraph community)
         \<and> subhypergraph (new_CommunitySubhypergraph community) = empty_Hypergraph
         \<and> hypernodes empty_Hypergraph = [] \<and> hyperedges empty_Hypergraph = []
         \<and> incidence_array empty_Hypergraph = []
         \<and> phase0_community (new_CommunitySubhypergraph community) target = target
         \<and> phase1_task (new_CommunitySubhypergraph community) target = Some target
         \<and> mergeCommunityInducedSectionHypergraphs hashf seed num_threads id pool_order target
              (before @ new_CommunitySubhypergraph community # after) history
            = mergeCommunityInducedSectionHypergraphs hashf seed num_threads id pool_order target
              (before @ after) history"
proof -
  let ?st = "(new_CommunitySubhypergraph community,
              replicate (num_hypernodes hg + num_hyperedges hg) False)"
  have "\<forall>hn\<in>set [0..<num_hypernodes hg]. visit_hypernode hg community hn ?st = Some ?st"
    using assms by (auto intro!: visit_hypernode_other)
  then have "foldM (visit_hypernode hg community) [0..<num_hypernodes hg] ?st = Some ?st"
    by (rule foldM_skip)
  then have ex: "extractCommunityInducedSectionHypergraph setup_structure hashf seed hg community respect_order
           = Some (new_CommunitySubhypergraph community)"
    by (simp add: extractCommunityInducedSectionHypergraph_def Let_def
        new_CommunitySubhypergraph_def)
  have m: "mergeCommunityInducedSectionHypergraphs hashf seed num_threads id pool_order target
              (before @ new_CommunitySubhypergraph community # after) history
            = mergeCommunityInducedSectionHypergraphs hashf seed num_threads id pool_order target
              (before @ after) history"
    by (simp add: mergeCommunityInducedSectionHypergraphs_def phase1_def phase0_drop_empty
        phase1_drop_empty)
  show ?thesis
    using ex m phase0_community_empty phase1_task_empty
    by (simp add: new_CommunitySubhypergraph_def empty_Hypergraph_def)
qed

theorem empty_community_is_noop_witness:
  "extractCommunityInducedSectionHypergraph setupInternalStructure word_of_nat 0
     scenario_hg 2 True = Some (new_CommunitySubhypergraph 2)
   \<and> phase0_community (new_CommunitySubhypergraph 2) scenario_hg = scenario_hg
   \<and> phase1_task (new_CommunitySubhypergraph 2) scenario_hg = Some scenario_hg
   \<and> mergeCommunityInducedSectionHypergraphs word_of_nat 0 2 id id scenario_hg
        ([scenario_A] @ new_CommunitySubhypergraph 2 # [scenario_B]) []
      = mergeCommunityInducedSectionHypergraphs word_of_nat 0 2 id id scenario_hg
        ([scenario_A] @ [scenario_B]) []"
proof -
  have h: "num_hypernodes scenario_hg \<le> length (hypernodes scenario_hg)"
    "num_hypernodes scenario_hg \<le> length (communities scenario_hg)"
    "\<forall>hn<num_hypernodes scenario_hg. communities scenario_hg ! hn \<noteq> 2"
    by (simp_all add: scenario_hg_def less_Suc_eq numeral_eq_Suc)
  from empty_community_is_noop [OF h, where setup_structure = setupInternalStructure
      and hashf = word_of_nat and seed = 0 and respect_order = True and target = scenario_hg
      and num_threads = 2 and pool_order = id and before = "[scenario_A]"
      and after = "[scenario_B]" and history = "[]"]
  show ?thesis by blast
qed

subsection \<open>Pre-phase\<close>

lemma take_bit_narrow_sum:
  fixes x a b :: int
  assumes "n \<le> m"
  shows "take_bit n (take_bit m (take_bit n x + (take_bit n a - b)))
         = take_bit n (x + (a - take_bit m b))"
proof -
  have d: "(2::int) ^ n dvd 2 ^ m" using assms by (rule le_imp_power_dvd)
  have c: "k mod 2 ^ m mod 2 ^ n = k mod (2::int) ^ n" for k
    using d by (rule mod_mod_cancel)
  have "(x mod 2 ^ n + (a mod 2 ^ n - b)) mod 2 ^ m mod 2 ^ n
        = (x mod 2 ^ n + (a mod 2 ^ n - b)) mod 2 ^ n"
    by (rule c)
  also have "\<dots> = (x + (a - b)) mod 2 ^ n"
    by (metis mod_add_left_eq mod_add_right_eq mod_diff_left_eq)
  also have "\<dots> = (x + (a - b mod 2 ^ m mod 2 ^ n)) mod 2 ^ n"
    unfolding c by (metis mod_add_right_eq mod_diff_right_eq)
  also have "\<dots> = (x + (a - b mod 2 ^ m)) mod 2 ^ n"
    by (metis mod_add_right_eq mod_diff_right_eq)
  finally show ?thesis by (simp only: take_bit_eq_mod)
qed

lemma ucast_down_add:
  "(ucast ((ucast (x :: 32 word) :: 64 word) + (ucast (a :: 32 word) - (b :: 64 word))) :: 32 word)
   = x + (a - ucast b)"
  by transfer (rule take_bit_narrow_sum, simp)

lemma phase0_fold_nodes:
  "current_num_hypernodes (fold phase0_community cs hg)
   = current_num_hypernodes hg
     + sum_list (map (\<lambda>c. current_num_hypernodes (subhypergraph c)
                            - ucast (num_hn_not_in_community c)) cs)"
  by (induction cs arbitrary: hg) (simp_all add: phase0_community_def Let_def ucast_down_add add.assoc)

lemma phase0_fold_pins:
  "current_num_pins (fold phase0_community cs hg)
   = current_num_pins hg
     + sum_list (map (\<lambda>c. current_num_pins (subhypergraph c)
                            - ucast (num_pins_not_in_community c)) cs)"
  by (induction cs arbitrary: hg) (simp_all add: phase0_community_def Let_def ucast_down_add add.assoc)

lemma phase0_fold_edges:
  "current_num_hyperedges (fold phase0_community cs hg)
   = current_num_hyperedges hg
     - sum_list (map (\<lambda>c. word_of_nat (num_hyperedges (subhypergraph c))
                            - current_num_hyperedges (subhypergraph c)) cs)"
proof (induction cs arbitrary: hg)
  case Nil
  show ?case by simp
next
  case (Cons a cs)
  have "current_num_hyperedges (phase0_community a hg)
        = current_num_hyperedges hg
          - (word_of_nat (num_hyperedges (subhypergraph a))
             - current_num_hyperedges (subhypergraph a))"
    by (simp add: phase0_community_def Let_def)
  then show ?case by (simp add: Cons.IH algebra_simps)
qed


lemma unat_sum_list_word:
  fixes ws :: "32 word list"
  assumes "sum_list (map unat ws) < 2 ^ 32"
  shows "unat (sum_list ws) = sum_list (map unat ws)"
  using assms
proof (induction ws)
  case Nil
  show ?case by simp
next
  case (Cons w ws)
  then have ih: "unat (sum_list ws) = sum_list (map unat ws)" by simp
  with Cons.prems have "unat w + unat (sum_list ws) < 2 ^ LENGTH(32)" by simp
  then have "unat (w + sum_list ws) = unat w + unat (sum_list ws)"
    by (simp only: unat_add_lem)
  with ih show ?case by simp
qed

lemma unat_diff_ucast:
  fixes a :: "32 word" and b :: "64 word"
  assumes "unat b \<le> unat a"
  shows "unat (a - ucast b) = unat a - unat b"
proof -
  have "unat a < 2 ^ LENGTH(32)" by (rule unsigned_less)
  with assms have "unat b < 2 ^ LENGTH(32)" by simp
  then have u: "unat (ucast b :: 32 word) = unat b"
    by (simp only: unsigned_ucast_eq take_bit_nat_eq_self)
  with assms have "ucast b \<le> a" by (simp add: word_le_nat_alt)
  then show ?thesis using u by (simp add: unat_sub)
qed

lemma unat_diff_of_nat:
  fixes c :: "32 word"
  assumes "unat c \<le> n" "n < 2 ^ 32"
  shows "unat (word_of_nat n - c) = n - unat c"
proof -
  have u: "unat (word_of_nat n :: 32 word) = n" using assms(2) by (simp add: unat_of_nat)
  with assms have "c \<le> word_of_nat n" by (simp add: word_le_nat_alt)
  then show ?thesis using u by (simp add: unat_sub)
qed


lemma unat_sum_terms:
  fixes f :: "'c \<Rightarrow> 32 word" and g :: "'c \<Rightarrow> nat"
  assumes "\<forall>c\<in>set cs. unat (f c) = g c" "sum_list (map g cs) < 2 ^ 32"
  shows "unat (sum_list (map f cs)) = sum_list (map g cs)"
proof -
  have m: "map unat (map f cs) = map g cs" using assms(1) by simp
  have "sum_list (map unat (map f cs)) < 2 ^ 32" unfolding m by (rule assms(2))
  then have "unat (sum_list (map f cs)) = sum_list (map unat (map f cs))"
    by (rule unat_sum_list_word)
  then show ?thesis unfolding m .
qed

text \<open>
  Claim C8.  After the pre-phase the current number of hypernodes is the sum over the
  communities of \<open>currentNumNodes - num_hn_not_in_community\<close>, the current number of pins
  the sum of \<open>currentNumPins - num_pins_not_in_community\<close>, and the current number of
  hyperedges its previous value minus the sum of \<open>initialNumEdges - currentNumEdges\<close>.
  This holds in the 32-bit arithmetic of the counters without any condition, and for the
  numbers themselves when no difference is negative and no sum leaves the 32 bits.
\<close>

theorem phase0_counts:
  "current_num_hypernodes (phase0 cs hg)
     = (\<Sum>c\<leftarrow>cs. current_num_hypernodes (subhypergraph c) - ucast (num_hn_not_in_community c))
   \<and> current_num_pins (phase0 cs hg)
     = (\<Sum>c\<leftarrow>cs. current_num_pins (subhypergraph c) - ucast (num_pins_not_in_community c))
   \<and> current_num_hyperedges (phase0 cs hg)
     = current_num_hyperedges hg
       - (\<Sum>c\<leftarrow>cs. word_of_nat (num_hyperedges (subhypergraph c))
                 - current_num_hyperedges (subhypergraph c))
   \<and> ((\<forall>c\<in>set cs. unat (num_hn_not_in_community c)
                       \<le> unat (current_num_hypernodes (subhypergraph c)))
        \<and> (\<Sum>c\<leftarrow>cs. unat (current_num_hypernodes (subhypergraph c))
                    - unat (num_hn_not_in_community c)) < 2 ^ 32
      \<longrightarrow> unat (current_num_hypernodes (phase0 cs hg))
          = (\<Sum>c\<leftarrow>cs. unat (current_num_hypernodes (subhypergraph c))
                    - unat (num_hn_not_in_community c)))
   \<and> ((\<forall>c\<in>set cs. unat (num_pins_not_in_community c)
                       \<le> unat (current_num_pins (subhypergraph c)))
        \<and> (\<Sum>c\<leftarrow>cs. unat (current_num_pins (subhypergraph c))
                    - unat (num_pins_not_in_community c)) < 2 ^ 32
      \<longrightarrow> unat (current_num_pins (phase0 cs hg))
          = (\<Sum>c\<leftarrow>cs. unat (current_num_pins (subhypergraph c))
                    - unat (num_pins_not_in_community c)))
   \<and> ((\<forall>c\<in>set cs. unat (current_num_hyperedges (subhypergraph c))
                       \<le> num_hyperedges (subhypergraph c)
                     \<and> num_hyperedges (subhypergraph c) < 2 ^ 32)
        \<and> (\<Sum>c\<leftarrow>cs. num_hyperedges (subhypergraph c)
                    - unat (current_num_hyperedges (subhypergraph c)))
            \<le> unat (current_num_hyperedges hg)
      \<longrightarrow> unat (current_num_hyperedges (phase0 cs hg))
          = unat (current_num_hyperedges hg)
            - (\<Sum>c\<leftarrow>cs. num_hyperedges (subhypergraph c)
                      - unat (current_num_hyperedges (subhypergraph c))))"
proof -
  let ?fn = "\<lambda>c. current_num_hypernodes (subhypergraph c) - ucast (num_hn_not_in_community c)"
  let ?gn = "\<lambda>c. unat (current_num_hypernodes (subhypergraph c)) - unat (num_hn_not_in_community c)"
  let ?fp = "\<lambda>c. current_num_pins (subhypergraph c) - ucast (num_pins_not_in_community c)"
  let ?gp = "\<lambda>c. unat (current_num_pins (subhypergraph c)) - unat (num_pins_not_in_community c)"
  let ?fe = "\<lambda>c. word_of_nat (num_hyperedges (subhypergraph c))
                 - current_num_hyperedges (subhypergraph c)"
  let ?ge = "\<lambda>c. num_hyperedges (subhypergraph c) - unat (current_num_hyperedges (subhypergraph c))"
  have n: "current_num_hypernodes (phase0 cs hg) = sum_list (map ?fn cs)"
    by (simp add: phase0_def phase0_fold_nodes)
  have p: "current_num_pins (phase0 cs hg) = sum_list (map ?fp cs)"
    by (simp add: phase0_def phase0_fold_pins)
  have e: "current_num_hyperedges (phase0 cs hg) = current_num_hyperedges hg - sum_list (map ?fe cs)"
    by (simp add: phase0_def phase0_fold_edges)
  have n': "unat (current_num_hypernodes (phase0 cs hg)) = sum_list (map ?gn cs)"
    if "\<forall>c\<in>set cs. unat (num_hn_not_in_community c)
                       \<le> unat (current_num_hypernodes (subhypergraph c))"
      and "sum_list (map ?gn cs) < 2 ^ 32"
  proof -
    from that(1) have "\<forall>c\<in>set cs. unat (?fn c) = ?gn c" by (simp add: unat_diff_ucast)
    then show ?thesis unfolding n using that(2) by (rule unat_sum_terms)
  qed
  have p': "unat (current_num_pins (phase0 cs hg)) = sum_list (map ?gp cs)"
    if "\<forall>c\<in>set cs. unat (num_pins_not_in_community c)
                       \<le> unat (current_num_pins (subhypergraph c))"
      and "sum_list (map ?gp cs) < 2 ^ 32"
  proof -
    from that(1) have "\<forall>c\<in>set cs. unat (?fp c) = ?gp c" by (simp add: unat_diff_ucast)
    then show ?thesis unfolding p using that(2) by (rule unat_sum_terms)
  qed
  have e': "unat (current_num_hyperedges (phase0 cs hg))
            = unat (current_num_hyperedges hg) - sum_list (map ?ge cs)"
    if "\<forall>c\<in>set cs. unat (current_num_hyperedges (subhypergraph c))
                       \<le> num_hyperedges (subhypergraph c)
                     \<and> num_hyperedges (subhypergraph c) < 2 ^ 32"
      and "sum_list (map ?ge cs) \<le> unat (current_num_hyperedges hg)"
  proof -
    from that(1) have t: "\<forall>c\<in>set cs. unat (?fe c) = ?ge c" by (simp add: unat_diff_of_nat)
    have "unat (current_num_hyperedges hg) < 2 ^ LENGTH(32)" by (rule unsigned_less)
    with that(2) have "sum_list (map ?ge cs) < 2 ^ 32" by simp
    with t have s: "unat (sum_list (map ?fe cs)) = sum_list (map ?ge cs)" by (rule unat_sum_terms)
    with that(2) have "sum_list (map ?fe cs) \<le> current_num_hyperedges hg"
      by (simp add: word_le_nat_alt)
    then show ?thesis unfolding e using s by (simp add: unat_sub)
  qed
  from n p e n' p' e' show ?thesis by blast
qed

theorem phase0_counts_witness:
  "unat (current_num_hypernodes (phase0 [scenario_A, scenario_B] scenario_hg)) = 4
   \<and> unat (current_num_pins (phase0 [scenario_A, scenario_B] scenario_hg)) = 5
   \<and> unat (current_num_hyperedges (phase0 [scenario_A, scenario_B] scenario_hg)) = 2"
  using phase0_counts [of "[scenario_A, scenario_B]" scenario_hg]
  by (simp add: scenario_A_def scenario_B_def scenario_hg_def)

subsection \<open>Phase 1\<close>

text \<open>
  Claim C1.  The weight of the original hyperedge should become the coarsened weight
  exactly when the coarsened weight is larger than the weight of that original hyperedge.
  The comparison reads the hyperedge at the local index instead.  Below, the local
  hyperedge 0 of community 1 stands for the original hyperedge 1; its coarsened weight is
  2 and the original weight is 1, but the original hyperedge 0 has weight 10, so that the
  weight of the original hyperedge 1 stays 1.
\<close>

theorem phase1_weight_update_failing_input:
  "original_he (subhypergraph_to_hypergraph_he parallel_B_coarsened ! 0) = 1
   \<and> he_weight (hyperedges parallel_hg ! 1) = 1
   \<and> he_weight (hyperedges (subhypergraph parallel_B_coarsened) ! 0) = 2
   \<and> map_option (\<lambda>hg'. he_weight (hyperedges hg' ! 1))
         (writeback_hyperedge parallel_B_coarsened 0 parallel_hg) = Some 1
   \<and> he_weight (hyperedges parallel_hg ! 0) = 10"
  by code_simp

subsection \<open>Round trip\<close>

text \<open>
  Claim C3.  Extracting every community, contracting nothing and merging with an empty
  history should give back the pins of every hyperedge.  On the hypergraph with a
  hypernode of weight 2, whose ranges are shown above, community 0 writes its pin 0 to
  position 0 of \<open>e0\<close> and community 1 writes its pin 1 behind the hyperedge: \<open>e0\<close>, which
  held the pins 1 and 0, holds 0 twice after the merge.
\<close>

theorem round_trip_failing_input:
  "(case (extractCommunityInducedSectionHypergraph setupInternalStructure word_of_nat 0
            weighted_hg 0 True,
          extractCommunityInducedSectionHypergraph setupInternalStructure word_of_nat 0
            weighted_hg 1 True) of
      (Some a, Some b) \<Rightarrow>
        map_option (\<lambda>hg'. pins hg' 0)
          (mergeCommunityInducedSectionHypergraphs word_of_nat 0 2 id id weighted_hg [a, b] [])
    | _ \<Rightarrow> None) = Some [0, 0]
   \<and> pins weighted_hg 0 = [1, 0]"
  by code_simp

subsection \<open>Reading a hypergraph file\<close>

lemma getline_line:
  assumes "good f" "content f = l @ newline # rest" "newline \<notin> set l"
  shows "getline f old = (f\<lparr>content := rest\<rparr>, l)"
proof -
  have t: "takeWhile (\<lambda>c. c \<noteq> newline) (l @ newline # rest) = l"
    using assms(3) by (subst takeWhile_append2) auto
  have d: "dropWhile (\<lambda>c. c \<noteq> newline) (l @ newline # rest) = newline # rest"
    using assms(3) by (subst dropWhile_append2) auto
  show ?thesis using assms(1,2) by (simp add: getline_def Let_def t d)
qed

lemma good_content [simp]: "good (f\<lparr>content := r\<rparr>) = good f"
  by (simp add: good_def)

lemma skip_comments_lines:
  assumes "good f" "content f = unlines (comments @ [h]) @ rest"
    and "\<forall>c\<in>set comments. first_char c = CHR ''%'' \<and> newline \<notin> set c"
    and "first_char h \<noteq> CHR ''%''" "newline \<notin> set h"
  shows "skip_comments (fst (getline f old)) (snd (getline f old)) = Some (f\<lparr>content := rest\<rparr>, h)"
  using assms
proof (induction comments arbitrary: f old)
  case Nil
  then have "getline f old = (f\<lparr>content := rest\<rparr>, h)"
    by (intro getline_line) (simp_all add: unlines_def)
  with Nil show ?case by (simp add: skip_comments.simps)
next
  case (Cons c comments)
  let ?f' = "f\<lparr>content := unlines (comments @ [h]) @ rest\<rparr>"
  from Cons.prems have g: "getline f old = (?f', c)"
    by (intro getline_line) (simp_all add: unlines_def)
  from Cons.prems have "skip_comments (fst (getline ?f' c)) (snd (getline ?f' c))
      = Some (?f'\<lparr>content := rest\<rparr>, h)"
    by (intro Cons.IH) simp_all
  with g Cons.prems show ?case by (subst skip_comments.simps) simp
qed

text \<open>The sentry: white space is skipped, and a stream with nothing else left fails.\<close>

lemma good_istringstream [simp]: "good (istringstream l)"
  by (simp add: good_def istringstream_def)

lemma content_istringstream [simp]: "content (istringstream l) = l"
  by (simp add: istringstream_def)

lemma dropWhile_all: "list_all P xs \<Longrightarrow> dropWhile P xs = []"
  by (simp add: list_all_iff)

lemma sentry_skips:
  assumes "good s" "content s = pre @ c # r" "list_all isspace pre" "\<not> isspace c"
  shows "sentry s = s\<lparr>content := c # r\<rparr>"
proof -
  have "dropWhile isspace (pre @ c # r) = c # r"
    using assms(3,4) by (subst dropWhile_append2) (auto simp: list_all_iff)
  with assms(1,2) show ?thesis by (simp add: sentry_def Let_def)
qed

lemma extract_not_good:
  assumes "\<not> good s"
  shows "extract_number convert zero s = (s\<lparr>failbit := True\<rparr>, None)"
  using assms by (simp add: extract_number_def sentry_def good_def)

lemma extract_blank:
  assumes "good s" "list_all isspace (content s)"
  shows "extract_number convert zero s = (s\<lparr>content := [], eofbit := True, failbit := True\<rparr>, None)"
  using assms by (simp add: extract_number_def sentry_def Let_def dropWhile_all good_def)

lemma read_pins_done:
  assumes "\<not> good s \<or> list_all isspace (content s)"
  shows "read_pins s ev = ev"
proof (cases "good s")
  case False
  then show ?thesis
    by (subst read_pins.simps) (simp add: extract_unsigned_def extract_not_good)
next
  case True
  with assms have "list_all isspace (content s)" by simp
  with True show ?thesis
    by (subst read_pins.simps) (simp add: extract_unsigned_def extract_blank)
qed

text \<open>
  A line that begins with \<open>%\<close>: the sentry passes, no digit is found, so 0 is stored and
  the extraction fails.
\<close>

lemma scan_integer_comment:
  assumes "first_char c = CHR ''%''"
  shows "fst (scan_integer c) = None"
proof -
  from assms obtain r where c: "c = CHR ''%'' # r"
    by (cases c) (simp_all add: first_char_def)
  show ?thesis by (simp add: c scan_integer_def isdigit_def Let_def)
qed

lemma extract_comment:
  assumes "first_char c = CHR ''%''"
  shows "\<exists>s'. extract_number convert zero (istringstream c) = (s', Some zero) \<and> failbit s'"
proof -
  from assms obtain r where c: "c = [] @ CHR ''%'' # r"
    by (cases c) (simp_all add: first_char_def)
  have "sentry (istringstream c) = (istringstream c)\<lparr>content := CHR ''%'' # r\<rparr>"
    by (rule sentry_skips [where pre = "[]"]) (simp_all add: c isspace_def)
  then have s: "sentry (istringstream c) = istringstream c"
    by (simp add: istringstream_def c)
  obtain y where sc: "scan_integer c = (None, y)"
    using scan_integer_comment [OF assms] by (cases "scan_integer c") simp
  show ?thesis by (simp add: extract_number_def s sc)
qed

lemma read_pins_comment:
  assumes "first_char c = CHR ''%''"
  shows "read_pins (istringstream c) ev = ev"
proof -
  from extract_comment [OF assms, of to_unsigned 0]
  obtain s' where "extract_unsigned (istringstream c) = (s', Some 0)" "failbit s'"
    by (auto simp: extract_unsigned_def)
  then show ?thesis by (subst read_pins.simps) simp
qed

text \<open>The extraction of a number written as a run of digits.\<close>

lemma scan_integer_token:
  assumes "token t" "r = [] \<or> \<not> isdigit (hd r)"
  shows "scan_integer (t @ r) = (Some (False, number_of t), r)"
proof -
  from assms(1) obtain c cs where t: "t = c # cs" and c: "isdigit c" and cs: "list_all isdigit cs"
    by (cases t) (auto simp: token_def)
  have nsign: "c \<noteq> CHR ''-''" "c \<noteq> CHR ''+''" using c by (auto simp: isdigit_def)
  have tw: "takeWhile isdigit (t @ r) = t"
    using assms by (subst takeWhile_append2) (auto simp: token_def list_all_iff takeWhile_eq_Nil_iff)
  have dw: "dropWhile isdigit (t @ r) = r"
    using assms by (subst dropWhile_append2) (auto simp: token_def list_all_iff dropWhile_eq_self_iff)
  show ?thesis
    unfolding scan_integer_def Let_def
    using nsign tw dw by (simp add: t)
qed

lemma extract_token:
  assumes g: "good s" and c: "content s = pre @ t @ r"
    and t: "token t" and pre: "list_all isspace pre" and r: "r = [] \<or> \<not> isdigit (hd r)"
    and cv: "convert False (number_of t) = (True, x)"
  shows "extract_number convert zero s = (s\<lparr>content := r, eofbit := (r = [])\<rparr>, Some x)"
proof -
  from t obtain d ds where td: "t = d # ds" and d: "isdigit d"
    by (cases t) (auto simp: token_def)
  have nsp: "\<not> isspace d" using d by (auto simp: isspace_def isdigit_def)
  have "sentry s = s\<lparr>content := d # (ds @ r)\<rparr>"
    using g c pre nsp by (intro sentry_skips [where pre = pre]) (simp_all add: td)
  then have s: "sentry s = s\<lparr>content := t @ r\<rparr>" by (simp add: td)
  from g have f: "s\<lparr>content := r, eofbit := r = [], failbit := False\<rparr>
                  = s\<lparr>content := r, eofbit := r = []\<rparr>"
    by (cases s) (simp add: good_def)
  show ?thesis
    using g by (simp add: extract_number_def s scan_integer_token [OF t r] cv f)
qed

lemma extract_unsigned_token:
  assumes "good s" "content s = pre @ t @ r" "token t" "number_of t < 2 ^ 32"
    "list_all isspace pre" "r = [] \<or> \<not> isdigit (hd r)"
  shows "extract_unsigned s = (s\<lparr>content := r, eofbit := (r = [])\<rparr>, Some (word_of_nat (number_of t)))"
  unfolding extract_unsigned_def
  using assms by (intro extract_token [where pre = pre and t = t]) (simp_all add: to_unsigned_def)

lemma extract_int_token:
  assumes "good s" "content s = pre @ t @ r" "token t" "number_of t < 2 ^ 31"
    "list_all isspace pre" "r = [] \<or> \<not> isdigit (hd r)"
  shows "extract_int s = (s\<lparr>content := r, eofbit := (r = [])\<rparr>, Some (int (number_of t)))"
  unfolding extract_int_def
  using assms by (intro extract_token [where pre = pre and t = t]) (simp_all add: to_signed_def)

lemma spaced_start: "spaced ts = [] \<or> \<not> isdigit (hd (spaced ts))"
  by (cases ts) (simp_all add: spaced_def isdigit_def)

lemma spaced_empty: "token t \<Longrightarrow> spaced (t # ts) \<noteq> []"
  by (simp add: spaced_def)

lemma read_pins_spaced:
  assumes "\<forall>t\<in>set ts. token t \<and> number_of t < 2 ^ 32"
    and "content s = spaced ts" and "ts \<noteq> [] \<longrightarrow> good s"
  shows "read_pins s ev = ev @ map (\<lambda>t. word_of_nat (number_of t) - 1) ts"
  using assms
proof (induction ts arbitrary: s ev)
  case Nil
  then have "list_all isspace (content s)" by (simp add: spaced_def)
  then show ?case by (simp add: read_pins_done)
next
  case (Cons t ts)
  from Cons.prems have g: "good s" by simp
  let ?s' = "s\<lparr>content := spaced ts, eofbit := (spaced ts = [])\<rparr>"
  have sp: "content s = [CHR '' ''] @ t @ spaced ts"
    using Cons.prems(2) by (simp add: spaced_def)
  have ex: "extract_unsigned s = (?s', Some (word_of_nat (number_of t)))"
    using g sp Cons.prems(1) spaced_start [of ts]
    by (intro extract_unsigned_token [where pre = "[CHR '' '']" and t = t])
       (simp_all add: isspace_def)
  from g have nf: "\<not> failbit ?s'" by (simp add: good_def)
  have "read_pins s ev = read_pins ?s' (ev @ [word_of_nat (number_of t) - 1])"
    by (subst read_pins.simps) (simp add: ex nf)
  also have "\<dots> = (ev @ [word_of_nat (number_of t) - 1])
                    @ map (\<lambda>t. word_of_nat (number_of t) - 1) ts"
  proof (rule Cons.IH)
    show "\<forall>t\<in>set ts. token t \<and> number_of t < 2 ^ 32" using Cons.prems(1) by simp
    show "content ?s' = spaced ts" by simp
    show "ts \<noteq> [] \<longrightarrow> good ?s'"
    proof
      assume "ts \<noteq> []"
      then obtain u us where "ts = u # us" by (cases ts) auto
      then have "spaced ts \<noteq> []" by (simp add: spaced_def)
      with g show "good ?s'" by (simp add: good_def)
    qed
  qed
  finally show ?case by simp
qed

lemma read_pins_join:
  assumes "\<forall>t\<in>set ts. token t \<and> number_of t < 2 ^ 32"
  shows "read_pins (istringstream (join ts)) ev = ev @ map (\<lambda>t. word_of_nat (number_of t) - 1) ts"
proof (cases ts)
  case Nil
  then show ?thesis by (simp add: join_def read_pins_done)
next
  case (Cons t ts')
  let ?s = "istringstream (join ts)"
  let ?s' = "?s\<lparr>content := spaced ts', eofbit := (spaced ts' = [])\<rparr>"
  have c: "content ?s = [] @ t @ spaced ts'" by (simp add: Cons join_def)
  have ex: "extract_unsigned ?s = (?s', Some (word_of_nat (number_of t)))"
    using c assms Cons spaced_start [of ts']
    by (intro extract_unsigned_token [where pre = "[]" and t = t]) simp_all
  have nf: "\<not> failbit ?s'" by (simp add: istringstream_def)
  have "read_pins ?s ev = read_pins ?s' (ev @ [word_of_nat (number_of t) - 1])"
    by (subst read_pins.simps) (simp add: ex nf)
  also have "\<dots> = (ev @ [word_of_nat (number_of t) - 1])
                    @ map (\<lambda>t. word_of_nat (number_of t) - 1) ts'"
  proof (rule read_pins_spaced)
    show "\<forall>t\<in>set ts'. token t \<and> number_of t < 2 ^ 32" using assms Cons by simp
    show "content ?s' = spaced ts'" by simp
    show "ts' \<noteq> [] \<longrightarrow> good ?s'"
    proof
      assume "ts' \<noteq> []"
      then obtain u us where "ts' = u # us" by (cases ts') auto
      then have "spaced ts' \<noteq> []" by (simp add: spaced_def)
      then show "good ?s'" by (simp add: good_def istringstream_def)
    qed
  qed
  finally show ?thesis using Cons by simp
qed

text \<open>
  The header line: three numbers, with any white space in front of them; and two numbers,
  where the third extraction finds the end of the line and writes nothing.
\<close>

lemma blank_start:
  assumes "p \<noteq> []" "list_all isspace p"
  shows "p @ r \<noteq> []" "\<not> isdigit (hd (p @ r))"
proof -
  from assms obtain c cs where p: "p = c # cs" "isspace c" by (cases p) auto
  show "p @ r \<noteq> []" using p by simp
  show "\<not> isdigit (hd (p @ r))" using p by (auto simp: isspace_def isdigit_def)
qed

lemma blank_rest:
  assumes "list_all isspace p"
  shows "p = [] \<or> \<not> isdigit (hd p)"
  using assms by (cases p) (auto simp: isspace_def isdigit_def)

lemma extract_header_three:
  assumes a: "token a" "number_of a < 2 ^ 32" and b: "token b" "number_of b < 2 ^ 32"
    and c: "token c" "number_of c < 2 ^ 31"
    and p1: "list_all isspace p1"
    and p2: "p2 \<noteq> []" "list_all isspace p2"
    and p3: "p3 \<noteq> []" "list_all isspace p3"
    and post: "post = [] \<or> \<not> isdigit (hd post)"
  shows "extract_header (p1 @ a @ p2 @ b @ p3 @ c @ post) e0 n0 t0
         = (word_of_nat (number_of a), word_of_nat (number_of b), int (number_of c))"
proof -
  let ?h = "p1 @ a @ p2 @ b @ p3 @ c @ post"
  let ?r1 = "p2 @ b @ p3 @ c @ post"
  let ?r2 = "p3 @ c @ post"
  let ?s0 = "istringstream ?h"
  let ?s1 = "?s0\<lparr>content := ?r1, eofbit := (?r1 = [])\<rparr>"
  let ?s2 = "?s1\<lparr>content := ?r2, eofbit := (?r2 = [])\<rparr>"
  let ?s3 = "?s2\<lparr>content := post, eofbit := (post = [])\<rparr>"
  have 1: "extract_unsigned ?s0 = (?s1, Some (word_of_nat (number_of a)))"
    using a p1 blank_start [OF p2, of "b @ p3 @ c @ post"]
    by (intro extract_unsigned_token [where pre = p1 and t = a]) simp_all
  have g1: "good ?s1"
    using blank_start(1) [OF p2, of "b @ p3 @ c @ post"] by (simp add: good_def istringstream_def)
  have 2: "extract_unsigned ?s1 = (?s2, Some (word_of_nat (number_of b)))"
    using g1 b p2 blank_start [OF p3, of "c @ post"]
    by (intro extract_unsigned_token [where pre = p2 and t = b]) simp_all
  have g2: "good ?s2"
    using blank_start(1) [OF p3, of "c @ post"] by (simp add: good_def istringstream_def)
  have 3: "extract_int ?s2 = (?s3, Some (int (number_of c)))"
    using g2 c p3 post by (intro extract_int_token [where pre = p3 and t = c]) simp_all
  show ?thesis
    unfolding extract_header_def Let_def 1 fst_conv snd_conv 2 3 by (simp add: stored_def)
qed

lemma extract_header_two:
  assumes a: "token a" "number_of a < 2 ^ 32" and b: "token b" "number_of b < 2 ^ 32"
    and p1: "list_all isspace p1"
    and p2: "p2 \<noteq> []" "list_all isspace p2"
    and post: "list_all isspace post"
  shows "extract_header (p1 @ a @ p2 @ b @ post) e0 n0 t0
         = (word_of_nat (number_of a), word_of_nat (number_of b), t0)"
proof -
  let ?h = "p1 @ a @ p2 @ b @ post"
  let ?r1 = "p2 @ b @ post"
  let ?s0 = "istringstream ?h"
  let ?s1 = "?s0\<lparr>content := ?r1, eofbit := (?r1 = [])\<rparr>"
  let ?s2 = "?s1\<lparr>content := post, eofbit := (post = [])\<rparr>"
  have 1: "extract_unsigned ?s0 = (?s1, Some (word_of_nat (number_of a)))"
    using a p1 blank_start [OF p2, of "b @ post"]
    by (intro extract_unsigned_token [where pre = p1 and t = a]) simp_all
  have g1: "good ?s1"
    using blank_start(1) [OF p2, of "b @ post"] by (simp add: good_def istringstream_def)
  have 2: "extract_unsigned ?s1 = (?s2, Some (word_of_nat (number_of b)))"
    using g1 b p2 blank_rest [OF post]
    by (intro extract_unsigned_token [where pre = p2 and t = b]) simp_all
  have 3: "snd (extract_int ?s2) = None"
  proof (cases "good ?s2")
    case False
    then show ?thesis by (simp add: extract_int_def extract_not_good)
  next
    case True
    moreover have "list_all isspace (content ?s2)" using post by simp
    ultimately show ?thesis by (simp add: extract_int_def extract_blank)
  qed
  show ?thesis
    unfolding extract_header_def Let_def 1 fst_conv snd_conv 2 3 by (simp add: stored_def)
qed

lemma extract_header_blank:
  assumes "list_all isspace h"
  shows "extract_header h e0 n0 t0 = (e0, n0, t0)"
proof -
  let ?s1 = "(istringstream h)\<lparr>content := [], eofbit := True, failbit := True\<rparr>"
  have 1: "extract_unsigned (istringstream h) = (?s1, None)"
    using assms by (simp add: extract_unsigned_def extract_blank)
  have ng: "\<not> good ?s1" by (simp add: good_def)
  have 2: "extract_unsigned ?s1 = (?s1\<lparr>failbit := True\<rparr>, None)"
    unfolding extract_unsigned_def using ng by (rule extract_not_good)
  have ng2: "\<not> good (?s1\<lparr>failbit := True\<rparr>)" by (simp add: good_def)
  have 3: "extract_int (?s1\<lparr>failbit := True\<rparr>) = (?s1\<lparr>failbit := True, failbit := True\<rparr>, None)"
    unfolding extract_int_def using ng2 by (rule extract_not_good)
  show ?thesis
    unfolding extract_header_def Let_def 1 fst_conv snd_conv 2 3 by (simp add: stored_def)
qed

lemma extract_header_tokens:
  assumes "token m" "number_of m < 2 ^ 32" "token n" "number_of n < 2 ^ 32"
    "token ty" "number_of ty < 2 ^ 31"
  shows "extract_header (join [m, n, ty]) e0 n0 t0
         = (word_of_nat (number_of m), word_of_nat (number_of n), int (number_of ty))"
proof -
  have j: "join [m, n, ty] = [] @ m @ [CHR '' ''] @ n @ [CHR '' ''] @ ty @ []"
    by (simp add: join_def spaced_def)
  show ?thesis
    unfolding j using assms by (intro extract_header_three) (simp_all add: isspace_def)
qed

text \<open>
  Claim C10.  On a good stream whose content begins with any number of lines that begin
  with \<open>%\<close>, followed by a line that does not, \<^verbatim>\<open>parseHGRHeader\<close> returns with the
  stream behind that line and with the numbers extracted from that line.  When the line
  holds three numbers, separated and possibly preceded by white space, these are the
  number of hyperedges, the number of hypernodes and the type, in this order.  When it
  holds two numbers only, they are the numbers of hyperedges and hypernodes and the type
  keeps the value it had; a blank line leaves all three as they were.  Behind the header a
  line that begins with \<open>%\<close> is not skipped: read as the line of a hyperedge it yields a
  hyperedge without pins (and the weight 0), read as the line of a hypernode weight it
  yields the weight 0.
\<close>

theorem header_skips_leading_comments:
  assumes "good f" "content f = unlines (comments @ [h]) @ rest"
    and "\<forall>c\<in>set comments. first_char c = CHR ''%'' \<and> newline \<notin> set c"
    and "first_char h \<noteq> CHR ''%''" "newline \<notin> set h"
  shows "parseHGRHeader f e n t = Some (f\<lparr>content := rest\<rparr>, extract_header h e n t)
    \<and> (\<forall>a b c p1 p2 p3 post.
          h = p1 @ a @ p2 @ b @ p3 @ c @ post
          \<and> valid_number a \<and> valid_number b \<and> token c \<and> number_of c < 2 ^ 31
          \<and> list_all isspace p1 \<and> p2 \<noteq> [] \<and> list_all isspace p2
          \<and> p3 \<noteq> [] \<and> list_all isspace p3 \<and> (post = [] \<or> \<not> isdigit (hd post))
        \<longrightarrow> extract_header h e n t = (weight_of a, weight_of b, int (number_of c)))
    \<and> (\<forall>a b p1 p2 post.
          h = p1 @ a @ p2 @ b @ post
          \<and> valid_number a \<and> valid_number b
          \<and> list_all isspace p1 \<and> p2 \<noteq> [] \<and> list_all isspace p2 \<and> list_all isspace post
        \<longrightarrow> extract_header h e n t = (weight_of a, weight_of b, t))
    \<and> (list_all isspace h \<longrightarrow> extract_header h e n t = (e, n, t))
    \<and> (\<forall>st c r. good (stream st) \<and> content (stream st) = c @ newline # r
            \<and> first_char c = CHR ''%'' \<and> newline \<notin> set c \<and> hyperedge_weights st \<noteq> None
            \<and> hypernode_weights st \<noteq> None
          \<longrightarrow> read_hyperedge False st
                = Some (st\<lparr>stream := (stream st)\<lparr>content := r\<rparr>, line := c,
                           index_vector := index_vector st @ [length (edge_vector st)]\<rparr>)
            \<and> read_hyperedge True st
                = Some (st\<lparr>stream := (stream st)\<lparr>content := r\<rparr>, line := c,
                           hyperedge_weights := Some (the (hyperedge_weights st) @ [0]),
                           index_vector := index_vector st @ [length (edge_vector st)]\<rparr>)
            \<and> read_hypernode_weight st
                = Some (st\<lparr>stream := (stream st)\<lparr>content := r\<rparr>, line := c,
                           hypernode_weights := Some (the (hypernode_weights st) @ [0])\<rparr>))"
proof -
  from assms(1) have nf: "\<not> failbit f" by (simp add: good_def)
  have 1: "parseHGRHeader f e n t = Some (f\<lparr>content := rest\<rparr>, extract_header h e n t)"
    using skip_comments_lines [OF assms, of "[]"] nf by (simp add: parseHGRHeader_def)
  have 2: "\<forall>a b c p1 p2 p3 post.
          h = p1 @ a @ p2 @ b @ p3 @ c @ post
          \<and> valid_number a \<and> valid_number b \<and> token c \<and> number_of c < 2 ^ 31
          \<and> list_all isspace p1 \<and> p2 \<noteq> [] \<and> list_all isspace p2
          \<and> p3 \<noteq> [] \<and> list_all isspace p3 \<and> (post = [] \<or> \<not> isdigit (hd post))
        \<longrightarrow> extract_header h e n t = (weight_of a, weight_of b, int (number_of c))"
  proof (intro allI impI)
    fix a b c p1 p2 p3 post
    assume A: "h = p1 @ a @ p2 @ b @ p3 @ c @ post
          \<and> valid_number a \<and> valid_number b \<and> token c \<and> number_of c < 2 ^ 31
          \<and> list_all isspace p1 \<and> p2 \<noteq> [] \<and> list_all isspace p2
          \<and> p3 \<noteq> [] \<and> list_all isspace p3 \<and> (post = [] \<or> \<not> isdigit (hd post))"
    then have h: "h = p1 @ a @ p2 @ b @ p3 @ c @ post" by (rule conjunct1)
    from A have va: "token a" "number_of a < 2 ^ 32" and vb: "token b" "number_of b < 2 ^ 32"
      by (simp_all add: valid_number_def)
    from A have vc: "token c" "number_of c < 2 ^ 31" by blast+
    from A have p: "list_all isspace p1" "p2 \<noteq> []" "list_all isspace p2"
      "p3 \<noteq> []" "list_all isspace p3" "post = [] \<or> \<not> isdigit (hd post)"
      by blast+
    show "extract_header h e n t = (weight_of a, weight_of b, int (number_of c))"
      unfolding h weight_of_def by (rule extract_header_three [OF va vb vc p])
  qed
  have 3: "\<forall>a b p1 p2 post.
          h = p1 @ a @ p2 @ b @ post
          \<and> valid_number a \<and> valid_number b
          \<and> list_all isspace p1 \<and> p2 \<noteq> [] \<and> list_all isspace p2 \<and> list_all isspace post
        \<longrightarrow> extract_header h e n t = (weight_of a, weight_of b, t)"
  proof (intro allI impI)
    fix a b p1 p2 post
    assume A: "h = p1 @ a @ p2 @ b @ post
          \<and> valid_number a \<and> valid_number b
          \<and> list_all isspace p1 \<and> p2 \<noteq> [] \<and> list_all isspace p2 \<and> list_all isspace post"
    then have h: "h = p1 @ a @ p2 @ b @ post" by (rule conjunct1)
    from A have va: "token a" "number_of a < 2 ^ 32" and vb: "token b" "number_of b < 2 ^ 32"
      by (simp_all add: valid_number_def)
    from A have p: "list_all isspace p1" "p2 \<noteq> []" "list_all isspace p2" "list_all isspace post"
      by blast+
    show "extract_header h e n t = (weight_of a, weight_of b, t)"
      unfolding h weight_of_def by (rule extract_header_two [OF va vb p])
  qed
  have 4: "list_all isspace h \<longrightarrow> extract_header h e n t = (e, n, t)"
    by (simp add: extract_header_blank)
  have 5: "\<forall>st c r. good (stream st) \<and> content (stream st) = c @ newline # r
            \<and> first_char c = CHR ''%'' \<and> newline \<notin> set c \<and> hyperedge_weights st \<noteq> None
            \<and> hypernode_weights st \<noteq> None
          \<longrightarrow> read_hyperedge False st
                = Some (st\<lparr>stream := (stream st)\<lparr>content := r\<rparr>, line := c,
                           index_vector := index_vector st @ [length (edge_vector st)]\<rparr>)
            \<and> read_hyperedge True st
                = Some (st\<lparr>stream := (stream st)\<lparr>content := r\<rparr>, line := c,
                           hyperedge_weights := Some (the (hyperedge_weights st) @ [0]),
                           index_vector := index_vector st @ [length (edge_vector st)]\<rparr>)
            \<and> read_hypernode_weight st
                = Some (st\<lparr>stream := (stream st)\<lparr>content := r\<rparr>, line := c,
                           hypernode_weights := Some (the (hypernode_weights st) @ [0])\<rparr>)"
  proof (intro allI impI)
    fix st :: hgr_state and c r
    assume A: "good (stream st) \<and> content (stream st) = c @ newline # r
            \<and> first_char c = CHR ''%'' \<and> newline \<notin> set c \<and> hyperedge_weights st \<noteq> None
            \<and> hypernode_weights st \<noteq> None"
    then have a: "good (stream st)" "content (stream st) = c @ newline # r"
      "first_char c = CHR ''%''" "newline \<notin> set c" "hyperedge_weights st \<noteq> None"
      "hypernode_weights st \<noteq> None"
      by blast+
    from a(1,2,4) have g: "getline (stream st) (line st) = ((stream st)\<lparr>content := r\<rparr>, c)"
      by (rule getline_line)
    from extract_comment [OF a(3), of to_unsigned 0]
    obtain x where x: "extract_unsigned (istringstream c) = (x, Some 0)" and xf: "failbit x"
      by (auto simp: extract_unsigned_def)
    from xf have rp: "read_pins x (edge_vector st) = edge_vector st"
      by (intro read_pins_done) (simp add: good_def)
    from a(5) obtain ws where ws: "hyperedge_weights st = Some ws" by auto
    from a(6) obtain vs where vs: "hypernode_weights st = Some vs" by auto
    have r1: "read_hyperedge False st
                = Some (st\<lparr>stream := (stream st)\<lparr>content := r\<rparr>, line := c,
                           index_vector := index_vector st @ [length (edge_vector st)]\<rparr>)"
      by (simp add: read_hyperedge_def g Let_def read_pins_comment [OF a(3)])
    have r2: "read_hyperedge True st
                = Some (st\<lparr>stream := (stream st)\<lparr>content := r\<rparr>, line := c,
                           hyperedge_weights := Some (the (hyperedge_weights st) @ [0]),
                           index_vector := index_vector st @ [length (edge_vector st)]\<rparr>)"
      by (simp add: read_hyperedge_def g Let_def x rp ws)
    have r3: "read_hypernode_weight st
                = Some (st\<lparr>stream := (stream st)\<lparr>content := r\<rparr>, line := c,
                           hypernode_weights := Some (the (hypernode_weights st) @ [0])\<rparr>)"
      by (simp add: read_hypernode_weight_def g Let_def x vs)
    from r1 r2 r3
    show "read_hyperedge False st
                = Some (st\<lparr>stream := (stream st)\<lparr>content := r\<rparr>, line := c,
                           index_vector := index_vector st @ [length (edge_vector st)]\<rparr>)
            \<and> read_hyperedge True st
                = Some (st\<lparr>stream := (stream st)\<lparr>content := r\<rparr>, line := c,
                           hyperedge_weights := Some (the (hyperedge_weights st) @ [0]),
                           index_vector := index_vector st @ [length (edge_vector st)]\<rparr>)
            \<and> read_hypernode_weight st
                = Some (st\<lparr>stream := (stream st)\<lparr>content := r\<rparr>, line := c,
                           hypernode_weights := Some (the (hypernode_weights st) @ [0])\<rparr>)"
      by (intro conjI)
  qed
  show ?thesis by (rule conjI [OF 1 conjI [OF 2 conjI [OF 3 conjI [OF 4 5]]]])
qed

lemma number_of_examples:
  "number_of ''1'' = 1" "number_of ''2'' = 2" "number_of ''3'' = 3" "number_of ''4'' = 4"
  "number_of ''5'' = 5" "number_of ''6'' = 6" "number_of ''7'' = 7" "number_of ''8'' = 8"
  "number_of ''11'' = 11"
  by (simp_all add: number_of_def)

lemma valid_number_examples:
  "valid_number ''1''" "valid_number ''2''" "valid_number ''3''" "valid_number ''4''"
  "valid_number ''5''" "valid_number ''6''" "valid_number ''7''" "valid_number ''8''"
  "token ''11''"
  by (simp_all add: valid_number_def token_def isdigit_def number_of_examples)

theorem header_skips_leading_comments_witness:
  "parseHGRHeader ex_file 0 0 0
     = Some (ex_file\<lparr>content := unlines [''5 1 2'', ''7 2 3'', ''4'', ''6'', ''8'']\<rparr>, 2, 3, 11)
   \<and> parseHGRHeader ex_file_two 7 8 9
     = Some (ex_file_two\<lparr>content := unlines [''1 2'', ''2 3'']\<rparr>, 2, 3, 9)"
proof -
  have c: "content ex_file
           = unlines ([''% two hyperedges, three hypernodes''] @ [''2 3 11''])
             @ unlines [''5 1 2'', ''7 2 3'', ''4'', ''6'', ''8'']"
    by (simp add: ex_file_def unlines_def)
  have g: "good ex_file" by (simp add: good_def ex_file_def)
  have cm: "\<forall>c\<in>set [''% two hyperedges, three hypernodes'']. first_char c = CHR ''%'' \<and> newline \<notin> set c"
    by (simp add: first_char_def newline_def)
  have h: "first_char ''2 3 11'' \<noteq> CHR ''%''" "newline \<notin> set ''2 3 11''"
    by (simp_all add: first_char_def newline_def)
  have sp: "list_all isspace '' ''" "list_all isspace []" by (simp_all add: isspace_def)
  have n11: "number_of ''11'' < 2 ^ 31" by (simp add: number_of_examples)
  note t1 = header_skips_leading_comments [OF g c cm h, of 0 0 0]
  from t1 have p1: "parseHGRHeader ex_file 0 0 0
      = Some (ex_file\<lparr>content := unlines [''5 1 2'', ''7 2 3'', ''4'', ''6'', ''8'']\<rparr>,
              extract_header ''2 3 11'' 0 0 0)"
    by (rule conjunct1)
  from t1 have "\<forall>a b c p1 p2 p3 post.
          ''2 3 11'' = p1 @ a @ p2 @ b @ p3 @ c @ post
          \<and> valid_number a \<and> valid_number b \<and> token c \<and> number_of c < 2 ^ 31
          \<and> list_all isspace p1 \<and> p2 \<noteq> [] \<and> list_all isspace p2
          \<and> p3 \<noteq> [] \<and> list_all isspace p3 \<and> (post = [] \<or> \<not> isdigit (hd post))
        \<longrightarrow> extract_header ''2 3 11'' 0 0 0 = (weight_of a, weight_of b, int (number_of c))"
    by (rule conjunct1 [OF conjunct2])
  from this [rule_format, of "[]" "''2''" "'' ''" "''3''" "'' ''" "''11''" "[]"]
  have e1: "extract_header ''2 3 11'' 0 0 0 = (2, 3, 11)"
    using valid_number_examples sp n11 by (simp add: weight_of_def number_of_examples)
  have c2: "content ex_file_two = unlines ([] @ [''2 3'']) @ unlines [''1 2'', ''2 3'']"
    by (simp add: ex_file_two_def unlines_def)
  have g2: "good ex_file_two" by (simp add: good_def ex_file_two_def)
  have h2: "first_char ''2 3'' \<noteq> CHR ''%''" "newline \<notin> set ''2 3''"
    by (simp_all add: first_char_def newline_def)
  have cm2: "\<forall>c\<in>set ([] :: string list). first_char c = CHR ''%'' \<and> newline \<notin> set c" by simp
  note t2 = header_skips_leading_comments [OF g2 c2 cm2 h2, of 7 8 9]
  from t2 have p2: "parseHGRHeader ex_file_two 7 8 9
      = Some (ex_file_two\<lparr>content := unlines [''1 2'', ''2 3'']\<rparr>, extract_header ''2 3'' 7 8 9)"
    by (rule conjunct1)
  from t2 have "\<forall>a b p1 p2 post.
          ''2 3'' = p1 @ a @ p2 @ b @ post
          \<and> valid_number a \<and> valid_number b
          \<and> list_all isspace p1 \<and> p2 \<noteq> [] \<and> list_all isspace p2 \<and> list_all isspace post
        \<longrightarrow> extract_header ''2 3'' 7 8 9 = (weight_of a, weight_of b, 9)"
    by (rule conjunct1 [OF conjunct2 [OF conjunct2]])
  from this [rule_format, of "[]" "''2''" "'' ''" "''3''" "[]"]
  have e2: "extract_header ''2 3'' 7 8 9 = (2, 3, 9)"
    using valid_number_examples sp by (simp add: weight_of_def number_of_examples)
  from p1 e1 p2 e2 show ?thesis by simp
qed

lemma foldM_const_length:
  "length xs = length ys \<Longrightarrow> foldM (\<lambda>i. g) xs s = foldM (\<lambda>i. g) ys s"
proof (induction xs arbitrary: ys s)
  case Nil
  then show ?case by simp
next
  case (Cons x xs)
  then obtain y ys' where ys: "ys = y # ys'" "length xs = length ys'" by (cases ys) auto
  with Cons.IH [of ys'] show ?case by (simp split: option.splits)
qed

lemma newline_not_digit: "\<not> isdigit newline"
  by (simp add: isdigit_def newline_def)

lemma token_no_newline: "token t \<Longrightarrow> newline \<notin> set t"
  using newline_not_digit by (auto simp: token_def list_all_iff)

lemma spaced_no_newline: "\<forall>t\<in>set ts. token t \<Longrightarrow> newline \<notin> set (spaced ts)"
  by (auto simp: spaced_def newline_def dest: token_no_newline [unfolded newline_def])

lemma join_no_newline: "\<forall>t\<in>set ts. token t \<Longrightarrow> newline \<notin> set (join ts)"
  using spaced_no_newline [of "tl ts"] token_no_newline [of "hd ts"]
  by (cases ts) (auto simp: join_def)

lemma read_hyperedge_line:
  assumes g: "good (stream st)"
    and c: "content (stream st) = edge_line hw e @ newline # r"
    and w: "hw \<longrightarrow> valid_number (fst e)"
    and p: "\<forall>t\<in>set (snd e). valid_number t"
    and h: "hw \<longrightarrow> hyperedge_weights st \<noteq> None"
  shows "read_hyperedge hw st
         = Some (st\<lparr>stream := (stream st)\<lparr>content := r\<rparr>,
                    line := edge_line hw e,
                    hyperedge_weights :=
                      (if hw then Some (the (hyperedge_weights st) @ [weight_of (fst e)])
                       else hyperedge_weights st),
                    edge_vector := edge_vector st @ map pin_of (snd e),
                    index_vector := index_vector st
                      @ [length (edge_vector st) + length (snd e)]\<rparr>)"
proof -
  have tok: "\<forall>t\<in>set ((if hw then [fst e] else []) @ snd e). token t"
    using w p by (auto simp: valid_number_def)
  then have nn: "newline \<notin> set (edge_line hw e)"
    unfolding edge_line_def by (rule join_no_newline)
  from g c nn have gl: "getline (stream st) (line st) = ((stream st)\<lparr>content := r\<rparr>, edge_line hw e)"
    by (rule getline_line)
  have pv: "\<forall>t\<in>set (snd e). token t \<and> number_of t < 2 ^ 32"
    using p by (simp add: valid_number_def)
  show ?thesis
  proof (cases hw)
    case False
    then have "edge_line hw e = join (snd e)" by (simp add: edge_line_def)
    with False show ?thesis
      by (simp add: read_hyperedge_def gl Let_def read_pins_join [OF pv] pin_of_def [abs_def])
  next
    case True
    with h obtain ws where ws: "hyperedge_weights st = Some ws" by auto
    from True have el: "edge_line True e = [] @ fst e @ spaced (snd e)"
      by (simp add: edge_line_def join_def)
    let ?s = "istringstream (edge_line True e)"
    let ?s' = "?s\<lparr>content := spaced (snd e), eofbit := (spaced (snd e) = [])\<rparr>"
    have ex': "extract_unsigned ?s = (?s', Some (word_of_nat (number_of (fst e))))"
      using el w True spaced_start [of "snd e"]
      by (intro extract_unsigned_token [where pre = "[]" and t = "fst e"])
         (simp_all add: valid_number_def)
    have gs: "snd e \<noteq> [] \<longrightarrow> good ?s'"
    proof
      assume "snd e \<noteq> []"
      then obtain u us where "snd e = u # us" by (cases "snd e") auto
      then have "spaced (snd e) \<noteq> []" by (simp add: spaced_def)
      then show "good ?s'" by (simp add: good_def istringstream_def)
    qed
    have rp: "read_pins ?s' (edge_vector st)
              = edge_vector st @ map (\<lambda>t. word_of_nat (number_of t) - 1) (snd e)"
      using pv _ gs by (rule read_pins_spaced) simp
    from gl True have gl': "getline (stream st) (line st)
              = ((stream st)\<lparr>content := r\<rparr>, edge_line True e)" by simp
    from True show ?thesis
      by (simp add: read_hyperedge_def gl' Let_def ws ex' rp
          pin_of_def [abs_def] weight_of_def)
  qed
qed

lemma read_hyperedges_lines:
  assumes "good (stream st)"
    and "content (stream st) = unlines (map (edge_line hw) edges) @ rest"
    and "\<forall>e\<in>set edges. (hw \<longrightarrow> valid_number (fst e)) \<and> (\<forall>t\<in>set (snd e). valid_number t)"
    and "hw \<longrightarrow> hyperedge_weights st \<noteq> None"
  shows "foldM (\<lambda>i. read_hyperedge hw) edges st
         = Some (st\<lparr>stream := (stream st)\<lparr>content := rest\<rparr>,
                    line := (if edges = [] then line st else edge_line hw (last edges)),
                    hyperedge_weights :=
                      (if hw then Some (the (hyperedge_weights st) @ map (weight_of \<circ> fst) edges)
                       else hyperedge_weights st),
                    edge_vector := edge_vector st @ concat (map (map pin_of \<circ> snd) edges),
                    index_vector := index_vector st
                      @ offsets (length (edge_vector st)) (map (length \<circ> snd) edges)\<rparr>)"
  using assms
proof (induction edges arbitrary: st)
  case Nil
  then have "(stream st)\<lparr>content := rest\<rparr> = stream st" by (simp add: unlines_def)
  moreover have "Some (the (hyperedge_weights st)) = hyperedge_weights st" if hw
    using Nil.prems(4) that by simp
  ultimately show ?case by simp
next
  case (Cons e edges)
  let ?st1 = "st\<lparr>stream := (stream st)\<lparr>content := unlines (map (edge_line hw) edges) @ rest\<rparr>,
                    line := edge_line hw e,
                    hyperedge_weights :=
                      (if hw then Some (the (hyperedge_weights st) @ [weight_of (fst e)])
                       else hyperedge_weights st),
                    edge_vector := edge_vector st @ map pin_of (snd e),
                    index_vector := index_vector st
                      @ [length (edge_vector st) + length (snd e)]\<rparr>"
  have c: "content (stream st)
           = edge_line hw e @ newline # (unlines (map (edge_line hw) edges) @ rest)"
    using Cons.prems(2) by (simp add: unlines_def)
  have 1: "read_hyperedge hw st = Some ?st1"
    using Cons.prems by (intro read_hyperedge_line [OF _ c]) simp_all
  have 2: "foldM (\<lambda>i. read_hyperedge hw) edges ?st1
         = Some (?st1\<lparr>stream := (stream ?st1)\<lparr>content := rest\<rparr>,
                    line := (if edges = [] then line ?st1 else edge_line hw (last edges)),
                    hyperedge_weights :=
                      (if hw then Some (the (hyperedge_weights ?st1) @ map (weight_of \<circ> fst) edges)
                       else hyperedge_weights ?st1),
                    edge_vector := edge_vector ?st1 @ concat (map (map pin_of \<circ> snd) edges),
                    index_vector := index_vector ?st1
                      @ offsets (length (edge_vector ?st1)) (map (length \<circ> snd) edges)\<rparr>)"
    using Cons.prems by (intro Cons.IH) (simp_all add: good_def)
  show ?case by (simp add: 1 2 comp_def)
qed

lemma read_hypernode_weight_line:
  assumes g: "good (stream st)"
    and c: "content (stream st) = w @ newline # r"
    and w: "valid_number w"
    and h: "hypernode_weights st \<noteq> None"
  shows "read_hypernode_weight st
         = Some (st\<lparr>stream := (stream st)\<lparr>content := r\<rparr>, line := w,
                    hypernode_weights := Some (the (hypernode_weights st) @ [weight_of w])\<rparr>)"
proof -
  from w have nn: "newline \<notin> set w" by (simp add: valid_number_def token_no_newline)
  from g c nn have gl: "getline (stream st) (line st) = ((stream st)\<lparr>content := r\<rparr>, w)"
    by (rule getline_line)
  have "extract_unsigned (istringstream w)
            = ((istringstream w)\<lparr>content := [], eofbit := ([] = ([] :: string))\<rparr>,
               Some (word_of_nat (number_of w)))"
    using w by (intro extract_unsigned_token [where pre = "[]" and t = w])
      (simp_all add: valid_number_def)
  then have ex: "extract_unsigned (istringstream w)
            = ((istringstream w)\<lparr>content := [], eofbit := True\<rparr>,
               Some (word_of_nat (number_of w)))"
    by simp
  from h obtain ws where ws: "hypernode_weights st = Some ws" by auto
  show ?thesis by (simp add: read_hypernode_weight_def gl Let_def ws ex weight_of_def)
qed

lemma read_hypernode_weights_lines:
  assumes "good (stream st)"
    and "content (stream st) = unlines nws @ rest"
    and "\<forall>w\<in>set nws. valid_number w"
    and "hypernode_weights st \<noteq> None"
  shows "\<exists>l. foldM (\<lambda>i. read_hypernode_weight) nws st
         = Some (st\<lparr>stream := (stream st)\<lparr>content := rest\<rparr>, line := l,
                    hypernode_weights := Some (the (hypernode_weights st) @ map weight_of nws)\<rparr>)"
  using assms
proof (induction nws arbitrary: st)
  case Nil
  then have "(stream st)\<lparr>content := rest\<rparr> = stream st" by (simp add: unlines_def)
  moreover have "Some (the (hypernode_weights st)) = hypernode_weights st"
    using Nil.prems(4) by simp
  ultimately have "foldM (\<lambda>i. read_hypernode_weight) [] st
         = Some (st\<lparr>stream := (stream st)\<lparr>content := rest\<rparr>, line := line st,
                    hypernode_weights := Some (the (hypernode_weights st) @ map weight_of [])\<rparr>)"
    by simp
  then show ?case by blast
next
  case (Cons w nws)
  let ?st1 = "st\<lparr>stream := (stream st)\<lparr>content := unlines nws @ rest\<rparr>, line := w,
                    hypernode_weights := Some (the (hypernode_weights st) @ [weight_of w])\<rparr>"
  have c: "content (stream st) = w @ newline # (unlines nws @ rest)"
    using Cons.prems(2) by (simp add: unlines_def)
  have 1: "read_hypernode_weight st = Some ?st1"
    using Cons.prems by (intro read_hypernode_weight_line [OF _ c]) simp_all
  have "\<exists>l. foldM (\<lambda>i. read_hypernode_weight) nws ?st1
         = Some (?st1\<lparr>stream := (stream ?st1)\<lparr>content := rest\<rparr>, line := l,
                    hypernode_weights := Some (the (hypernode_weights ?st1) @ map weight_of nws)\<rparr>)"
    using Cons.prems by (intro Cons.IH) (simp_all add: good_def)
  then obtain l where 2: "foldM (\<lambda>i. read_hypernode_weight) nws ?st1
         = Some (?st1\<lparr>stream := (stream ?st1)\<lparr>content := rest\<rparr>, line := l,
                    hypernode_weights := Some (the (hypernode_weights ?st1) @ map weight_of nws)\<rparr>)"
    ..
  have "foldM (\<lambda>i. read_hypernode_weight) (w # nws) st
         = Some (st\<lparr>stream := (stream st)\<lparr>content := rest\<rparr>, line := l,
                    hypernode_weights := Some (the (hypernode_weights st) @ map weight_of (w # nws))\<rparr>)"
    by (simp add: 1 2)
  then show ?case by blast
qed

lemma length_offsets [simp]: "length (offsets s ls) = length ls"
  by (induction ls arbitrary: s) simp_all

lemma offsets_nth:
  "i < length ls \<Longrightarrow> offsets s ls ! i = s + sum_list (take (Suc i) ls)"
proof (induction ls arbitrary: s i)
  case Nil
  then show ?case by simp
next
  case (Cons l ls)
  then show ?case by (cases i) (simp_all add: add.assoc)
qed

lemma index_nth:
  "i \<le> length ls \<Longrightarrow> (0 # offsets 0 ls) ! i = sum_list (take i ls)"
  by (cases i) (simp_all add: offsets_nth)

lemma slice_concat:
  assumes "i < length xss"
  shows "slice (concat xss) (sum_list (take i (map length xss)))
           (sum_list (take (Suc i) (map length xss))) = xss ! i"
proof -
  have x: "xss = take i xss @ (xss ! i) # drop (Suc i) xss"
    using assms by (simp add: id_take_nth_drop)
  have l1: "sum_list (take i (map length xss)) = length (concat (take i xss))"
    by (simp add: length_concat take_map)
  have "take (Suc i) xss = take i xss @ [xss ! i]"
    using assms by (simp add: take_Suc_conv_app_nth)
  then have l2: "sum_list (take (Suc i) (map length xss))
             = length (concat (take i xss)) + length (xss ! i)"
    by (simp add: length_concat take_map)
  have "concat xss = concat (take i xss) @ (xss ! i) @ concat (drop (Suc i) xss)"
    by (subst x) simp
  then show ?thesis
    unfolding l1 l2 by (simp add: slice_append_mid)
qed

lemma unat_weight_of: "valid_number t \<Longrightarrow> unat (weight_of t) = number_of t"
  by (simp add: valid_number_def weight_of_def unat_of_nat)

text \<open>
  Claim C9.  For a file that consists of comment lines, the header line with the number
  of hyperedges, the number of hypernodes and the type 0, 1, 10 or 11, one line for every
  hyperedge and, for the types 10 and 11, one line for every hypernode,
  \<^verbatim>\<open>parseHypergraphFile\<close>, called with empty vectors, returns with every pin stored
  decremented by one, in the order of the file.  The first number of a hyperedge line is
  read as the weight of the hyperedge exactly for the types 1 and 11, and the lines of the
  hypernode weights are read exactly for the types 10 and 11.  The index vector has one
  entry more than there are hyperedges, and the pins of hyperedge \<open>i\<close> are the entries
  \<open>[index_vector[i], index_vector[i+1])\<close> of the edge vector.
\<close>

theorem parseHypergraphFile_wellformed:
  assumes g: "good f"
    and c: "content f = unlines (comments @ [join [m, n, ty]]) @ unlines (map (edge_line hw) edges)
                        @ unlines nws @ rest"
    and cm: "\<forall>c\<in>set comments. first_char c = CHR ''%'' \<and> newline \<notin> set c"
    and m: "valid_number m" and n: "valid_number n"
    and ty: "token ty" "number_of ty \<in> {0, 1, 10, 11}"
    and hw: "hw \<longleftrightarrow> number_of ty = 1 \<or> number_of ty = 11"
    and nw: "nw \<longleftrightarrow> number_of ty = 10 \<or> number_of ty = 11"
    and le: "length edges = number_of m"
    and ln: "if nw then length nws = number_of n else nws = []"
    and ve: "\<forall>e\<in>set edges. (hw \<longrightarrow> valid_number (fst e)) \<and> (\<forall>t\<in>set (snd e). valid_number t)"
    and vn: "\<forall>w\<in>set nws. valid_number w"
  shows "\<exists>st. parseHypergraphFile f n0 m0 [] [] (Some []) (Some [])
               = Some (Some (weight_of n, weight_of m, st))
           \<and> content (stream st) = rest
           \<and> edge_vector st = concat (map (map pin_of \<circ> snd) edges)
           \<and> hyperedge_weights st = Some (if hw then map (weight_of \<circ> fst) edges else [])
           \<and> hypernode_weights st = Some (if nw then map weight_of nws else [])
           \<and> index_vector st = 0 # offsets 0 (map (length \<circ> snd) edges)
           \<and> length (index_vector st) = number_of m + 1
           \<and> (\<forall>i<number_of m.
                 slice (edge_vector st) (index_vector st ! i) (index_vector st ! (i + 1))
                 = map pin_of (snd (edges ! i)))"
proof -
  let ?h = "join [m, n, ty]"
  let ?r1 = "unlines (map (edge_line hw) edges) @ unlines nws @ rest"
  let ?f1 = "f\<lparr>content := ?r1\<rparr>"
  have tyd: "number_of ty < 2 ^ 31" using ty(2) by auto
  have hnc: "first_char ?h \<noteq> CHR ''%''"
  proof -
    from m obtain d ds where "m = d # ds" "isdigit d"
      by (cases m) (auto simp: valid_number_def token_def)
    then show ?thesis by (auto simp: join_def first_char_def isdigit_def)
  qed
  have hnn: "newline \<notin> set ?h"
    using m n ty(1) by (intro join_no_newline) (simp add: valid_number_def)
  from g have nf: "\<not> failbit f" by (simp add: good_def)
  have sk: "skip_comments (fst (getline f [])) (snd (getline f [])) = Some (?f1, ?h)"
    using g c cm hnc hnn by (intro skip_comments_lines) simp_all
  have eh: "extract_header ?h m0 n0 0 = (weight_of m, weight_of n, int (number_of ty))"
    using m n ty(1) tyd unfolding weight_of_def
    by (intro extract_header_tokens) (simp_all add: valid_number_def)
  have hdr: "parseHGRHeader f m0 n0 0 = Some (?f1, weight_of m, weight_of n, int (number_of ty))"
    using nf sk eh by (simp add: parseHGRHeader_def)
  have hw': "(int (number_of ty) = 1 \<or> int (number_of ty) = 11) = hw"
    using hw by (simp add: of_nat_eq_iff [of _ 1, simplified] of_nat_eq_iff [of _ 11, simplified])
  have nw': "(int (number_of ty) = 10 \<or> int (number_of ty) = 11) = nw"
    using nw by (simp add: of_nat_eq_iff [of _ 10, simplified] of_nat_eq_iff [of _ 11, simplified])
  let ?st0 = "\<lparr>stream = ?f1, line = [], index_vector = [] @ [length ([] :: 32 word list)],
               edge_vector = [], hyperedge_weights = Some [], hypernode_weights = Some []\<rparr>"
  let ?pins = "concat (map (map pin_of \<circ> snd) edges)"
  let ?iv = "0 # offsets 0 (map (length \<circ> snd) edges)"
  let ?hws = "if hw then map (weight_of \<circ> fst) edges else []"
  define l1 where "l1 = (if edges = [] then [] else edge_line hw (last edges))"
  let ?st1 = "\<lparr>stream = f\<lparr>content := unlines nws @ rest\<rparr>, line = l1, index_vector = ?iv,
               edge_vector = ?pins, hyperedge_weights = Some ?hws, hypernode_weights = Some []\<rparr>"
  have "foldM (\<lambda>i. read_hyperedge hw) edges ?st0
        = Some (?st0\<lparr>stream := (stream ?st0)\<lparr>content := unlines nws @ rest\<rparr>,
                    line := (if edges = [] then line ?st0 else edge_line hw (last edges)),
                    hyperedge_weights :=
                      (if hw then Some (the (hyperedge_weights ?st0) @ map (weight_of \<circ> fst) edges)
                       else hyperedge_weights ?st0),
                    edge_vector := edge_vector ?st0 @ concat (map (map pin_of \<circ> snd) edges),
                    index_vector := index_vector ?st0
                      @ offsets (length (edge_vector ?st0)) (map (length \<circ> snd) edges)\<rparr>)"
    using g ve by (intro read_hyperedges_lines) (simp_all add: good_def)
  then have e1: "foldM (\<lambda>i. read_hyperedge hw) edges ?st0 = Some ?st1"
    by (simp add: l1_def)
  have "length [0..<unat (weight_of m)] = length edges"
    using le m by (simp add: unat_weight_of)
  then have e2: "foldM (\<lambda>i. read_hyperedge hw) [0..<unat (weight_of m)] ?st0 = Some ?st1"
    using e1 foldM_const_length [of "[0..<unat (weight_of m)]" edges "read_hyperedge hw" ?st0]
    by simp
  have fin: "\<exists>st. (if nw then map_option (\<lambda>st2. (weight_of n, weight_of m, st2))
                          (foldM (\<lambda>i. read_hypernode_weight) [0..<unat (weight_of n)] ?st1)
                   else Some (weight_of n, weight_of m, ?st1))
               = Some (weight_of n, weight_of m, st)
           \<and> content (stream st) = rest
           \<and> edge_vector st = ?pins
           \<and> hyperedge_weights st = Some ?hws
           \<and> hypernode_weights st = Some (if nw then map weight_of nws else [])
           \<and> index_vector st = ?iv"
  proof (cases nw)
    case False
    with ln have "nws = []" by simp
    with False show ?thesis by (simp add: unlines_def)
  next
    case True
    with ln have lenn: "length nws = number_of n" by simp
    have "\<exists>l. foldM (\<lambda>i. read_hypernode_weight) nws ?st1
         = Some (?st1\<lparr>stream := (stream ?st1)\<lparr>content := rest\<rparr>, line := l,
                    hypernode_weights := Some (the (hypernode_weights ?st1) @ map weight_of nws)\<rparr>)"
      using g vn by (intro read_hypernode_weights_lines) (simp_all add: good_def)
    then obtain l where n1: "foldM (\<lambda>i. read_hypernode_weight) nws ?st1
         = Some \<lparr>stream = f\<lparr>content := rest\<rparr>, line = l, index_vector = ?iv,
               edge_vector = ?pins, hyperedge_weights = Some ?hws,
               hypernode_weights = Some (map weight_of nws)\<rparr>"
      by auto
    have "length [0..<unat (weight_of n)] = length nws"
      using lenn n by (simp add: unat_weight_of)
    then have "foldM (\<lambda>i. read_hypernode_weight) [0..<unat (weight_of n)] ?st1
         = Some \<lparr>stream = f\<lparr>content := rest\<rparr>, line = l, index_vector = ?iv,
               edge_vector = ?pins, hyperedge_weights = Some ?hws,
               hypernode_weights = Some (map weight_of nws)\<rparr>"
      using n1 foldM_const_length [of "[0..<unat (weight_of n)]" nws read_hypernode_weight ?st1]
      by simp
    with True show ?thesis by simp
  qed
  then obtain st where
    r: "(if nw then map_option (\<lambda>st2. (weight_of n, weight_of m, st2))
                          (foldM (\<lambda>i. read_hypernode_weight) [0..<unat (weight_of n)] ?st1)
                   else Some (weight_of n, weight_of m, ?st1))
               = Some (weight_of n, weight_of m, st)"
    and f1: "content (stream st) = rest" "edge_vector st = ?pins"
      "hyperedge_weights st = Some ?hws"
      "hypernode_weights st = Some (if nw then map weight_of nws else [])"
    and iv: "index_vector st = ?iv"
    by blast
  have p: "parseHypergraphFile f n0 m0 [] [] (Some []) (Some [])
               = Some (Some (weight_of n, weight_of m, st))"
  proof -
    have hw'': "(number_of ty = Suc 0 \<or> number_of ty = 11) = hw" using hw by simp
    have nw'': "(number_of ty = 10 \<or> number_of ty = 11) = nw" using nw by simp
    show ?thesis
      unfolding parseHypergraphFile_def hdr using e2 r by (simp add: Let_def hw' nw' hw'' nw'')
  qed
  have len: "length (index_vector st) = number_of m + 1" using iv le by simp
  have sl: "slice (edge_vector st) (index_vector st ! i) (index_vector st ! (i + 1))
                 = map pin_of (snd (edges ! i))" if "i < number_of m" for i
  proof -
    let ?xss = "map (map pin_of \<circ> snd) edges"
    have ml: "map length ?xss = map (length \<circ> snd) edges" by simp
    from that le have i: "i < length ?xss" by simp
    have a: "index_vector st ! i = sum_list (take i (map length ?xss))"
      unfolding iv ml using i by (intro index_nth) simp
    have b: "index_vector st ! (i + 1) = sum_list (take (Suc i) (map length ?xss))"
      unfolding iv ml using i index_nth [of "Suc i" "map (length \<circ> snd) edges"] by simp
    have "slice (concat ?xss) (sum_list (take i (map length ?xss)))
           (sum_list (take (Suc i) (map length ?xss))) = ?xss ! i"
      using i by (rule slice_concat)
    then show ?thesis unfolding f1(2) a b using i by simp
  qed
  from p f1 iv len sl show ?thesis by blast
qed

theorem parseHypergraphFile_wellformed_witness:
  "\<exists>st. parseHypergraphFile ex_file 0 0 [] [] (Some []) (Some []) = Some (Some (3, 2, st))
     \<and> content (stream st) = []
     \<and> edge_vector st = [0, 1, 1, 2]
     \<and> hyperedge_weights st = Some [5, 7]
     \<and> hypernode_weights st = Some [4, 6, 8]
     \<and> index_vector st = [0, 2, 4]"
proof -
  let ?edges = "[(''5'', [''1'', ''2'']), (''7'', [''2'', ''3''])]"
  let ?nws = "[''4'', ''6'', ''8'']"
  have c: "content ex_file
           = unlines ([''% two hyperedges, three hypernodes''] @ [join [''2'', ''3'', ''11'']])
             @ unlines (map (edge_line True) ?edges) @ unlines ?nws @ []"
    by (simp add: ex_file_def unlines_def join_def spaced_def edge_line_def)
  have g: "good ex_file" by (simp add: good_def ex_file_def)
  have cm: "\<forall>c\<in>set [''% two hyperedges, three hypernodes'']. first_char c = CHR ''%'' \<and> newline \<notin> set c"
    by (simp add: first_char_def newline_def)
  have ty: "number_of ''11'' \<in> {0, 1, 10, 11}" by (simp add: number_of_examples)
  have hw: "True \<longleftrightarrow> number_of ''11'' = 1 \<or> number_of ''11'' = 11"
    and nw: "True \<longleftrightarrow> number_of ''11'' = 10 \<or> number_of ''11'' = 11"
    by (simp_all add: number_of_examples)
  have le: "length ?edges = number_of ''2''" by (simp add: number_of_examples)
  have ln: "if True then length ?nws = number_of ''3'' else ?nws = []"
    by (simp add: number_of_examples)
  have ve: "\<forall>e\<in>set ?edges. (True \<longrightarrow> valid_number (fst e)) \<and> (\<forall>t\<in>set (snd e). valid_number t)"
    by (simp add: valid_number_examples)
  have vn: "\<forall>w\<in>set ?nws. valid_number w" by (simp add: valid_number_examples)
  from parseHypergraphFile_wellformed [OF g c cm valid_number_examples(2) valid_number_examples(3)
      valid_number_examples(9) ty hw nw le ln ve vn, of 0 0]
  obtain st where "parseHypergraphFile ex_file 0 0 [] [] (Some []) (Some [])
               = Some (Some (weight_of ''3'', weight_of ''2'', st))"
    "content (stream st) = []"
    "edge_vector st = concat (map (map pin_of \<circ> snd) ?edges)"
    "hyperedge_weights st = Some (if True then map (weight_of \<circ> fst) ?edges else [])"
    "hypernode_weights st = Some (if True then map weight_of ?nws else [])"
    "index_vector st = 0 # offsets 0 (map (length \<circ> snd) ?edges)"
    by blast
  then show ?thesis
    by (intro exI [of _ st]) (simp add: weight_of_def pin_of_def number_of_examples)
qed

end
